theory Spec2Isabelle
  imports Main "HOL-Library.Word"
begin

unbundle bit_operations_syntax

section \<open>Machine integers\<close>

type_synonym u8 = "8 word"
type_synonym u16 = "16 word"
type_synonym u32 = "32 word"

section \<open>Capacity decoding\<close>

text \<open>
  \<^verbatim>\<open>
  static uint32_t flash_calculate_capacity(uint8_t capacity_code) {
      if (capacity_code < 0x10 || capacity_code > 0x20) return 0;
      uint32_t bits = 1u << capacity_code;
      return bits / 8u;
  }
  \<close>
  The shift is a 32-bit unsigned shift: bits pushed beyond bit 31 are lost, which is what
  \<open>push_bit\<close> on \<open>32 word\<close> computes.
\<close>

definition flash_calculate_capacity :: "u8 \<Rightarrow> u32" where
  "flash_calculate_capacity capacity_code =
     (if capacity_code < 0x10 \<or> capacity_code > 0x20 then 0
      else let bits = push_bit (unat capacity_code) (1 :: u32) in bits div 8)"

section \<open>CRC-32\<close>

text \<open>
  \<^verbatim>\<open>
  static uint32_t crc32_update(uint32_t c, const uint8_t *b, size_t n) {
      c = ~c;
      for (size_t i = 0; i < n; ++i) {
          c ^= b[i];
          for (int k = 0; k < 8; ++k)
              c = (c >> 1) ^ (0xEDB88320u & -(int)(c & 1));
      }
      return ~c;
  }
  \<close>
  The buffer \<open>b\<close> with its length \<open>n\<close> is the byte list \<open>b\<close>.
\<close>

definition crc32_shift :: "u32 \<Rightarrow> u32" where
  "crc32_shift c = drop_bit 1 c XOR (0xEDB88320 AND - (c AND 1))"

primrec crc32_bits :: "nat \<Rightarrow> u32 \<Rightarrow> u32" where
  "crc32_bits 0 c = c"
| "crc32_bits (Suc k) c = crc32_bits k (crc32_shift c)"

primrec crc32_bytes :: "u32 \<Rightarrow> u8 list \<Rightarrow> u32" where
  "crc32_bytes c [] = c"
| "crc32_bytes c (x # b) = crc32_bytes (crc32_bits 8 (c XOR ucast x)) b"

definition crc32_update :: "u32 \<Rightarrow> u8 list \<Rightarrow> u32" where
  "crc32_update c b = NOT (crc32_bytes (NOT c) b)"

definition ascii :: "string \<Rightarrow> u8 list" where
  "ascii s = map (\<lambda>c. of_nat (of_char c)) s"

section \<open>The chip, the bus and the card\<close>

text \<open>
  The driver talks to three things outside the program: the flash chip on SPI0, the
  millisecond clock, and the SD card behind FatFs. They are the fields of \<open>world\<close>.

  \<^item> \<open>nor\<close> is the memory array of the chip, by byte address; the bus carries three
    address bytes, so only addresses below \<open>2 ^ 24\<close> are ever reached.
  \<^item> \<open>bus\<close> is the log of chip-select frames, oldest first: the bytes shifted out and
    the number of bytes read back.
  \<^item> \<open>sr1_feed\<close> is what status register 1 will answer, read after read; \<open>sr2_val\<close>
    what status register 2 answers. \<open>clock_feed\<close> is what \<open>to_ms_since_boot\<close> will
    return, call after call. \<open>malloc_feed\<close> tells whether the next allocations succeed.
    The program has no control over any of them.
  \<^item> \<open>card_ok\<close> tells whether \<open>f_mount\<close> succeeds, \<open>mounted\<close> is the static flag
    of \<open>fs_mount_once\<close>, \<open>sd_files\<close> are the files on the card by path and
    \<open>sd_dir\<close> is what \<open>f_readdir\<close> lists for the folder FLASHIMG (\<open>None\<close>: the
    folder does not exist). Reads and writes of an existing file always complete.
  Console output (\<open>printf\<close>) is not modelled.
\<close>

datatype frame = Frame (mosi: "u8 list") (nread: nat)

record jedec_info_t =
  manuf_id :: u8
  mem_type :: u8
  capacity_id :: u8

record FILINFO =
  fname :: string
  fdate :: u16
  ftime :: u16

record world =
  nor :: "nat \<Rightarrow> u8"
  bus :: "frame list"
  chip_jedec :: jedec_info_t
  sr1_feed :: "nat \<Rightarrow> u8"
  sr2_val :: u8
  clock_feed :: "nat \<Rightarrow> u32"
  malloc_feed :: "nat \<Rightarrow> bool"
  card_ok :: bool
  mounted :: bool
  sd_files :: "string \<Rightarrow> u8 list option"
  sd_dir :: "FILINFO list option"

abbreviation (input) CMD_WREN :: u8 where "CMD_WREN \<equiv> 0x06"
abbreviation (input) CMD_RDSR1 :: u8 where "CMD_RDSR1 \<equiv> 0x05"
abbreviation (input) CMD_RDSR2 :: u8 where "CMD_RDSR2 \<equiv> 0x35"
abbreviation (input) CMD_WRSR :: u8 where "CMD_WRSR \<equiv> 0x01"
abbreviation (input) CMD_READ :: u8 where "CMD_READ \<equiv> 0x03"
abbreviation (input) CMD_PP :: u8 where "CMD_PP \<equiv> 0x02"
abbreviation (input) CMD_SE_4K :: u8 where "CMD_SE_4K \<equiv> 0x20"
abbreviation (input) CMD_BE_64K :: u8 where "CMD_BE_64K \<equiv> 0xD8"
abbreviation (input) CMD_CHIP_ERASE :: u8 where "CMD_CHIP_ERASE \<equiv> 0xC7"
abbreviation (input) CMD_JEDEC_ID :: u8 where "CMD_JEDEC_ID \<equiv> 0x9F"
abbreviation (input) CMD_RSTEN :: u8 where "CMD_RSTEN \<equiv> 0x66"
abbreviation (input) CMD_RST :: u8 where "CMD_RST \<equiv> 0x99"
abbreviation (input) CMD_ULBPR :: u8 where "CMD_ULBPR \<equiv> 0x98"
abbreviation (input) CMD_RESUME :: u8 where "CMD_RESUME \<equiv> 0x7A"

abbreviation (input) FLASH_PAGE_SIZE :: u32 where "FLASH_PAGE_SIZE \<equiv> 256"
abbreviation (input) FLASH_SECTOR_SIZE :: u32 where "FLASH_SECTOR_SIZE \<equiv> 4096"
abbreviation (input) CHUNK_BYTES :: u32 where "CHUNK_BYTES \<equiv> 4096"
abbreviation (input) DUMP_FOLDER :: string where "DUMP_FOLDER \<equiv> ''FLASHIMG''"

subsection \<open>What the chip does with a frame\<close>

text \<open>
  The three address bytes of a command, most significant first. Page program writes
  consecutive bytes inside the addressed 256-byte page, wrapping to the start of the page
  at its end, and can only clear bits. Sector erase sets the 4096-byte sector holding the
  address to 0xFF, block erase the 64 KiB block, chip erase everything. Every other
  command leaves the array as it is.
\<close>

definition bus_addr :: "u8 \<Rightarrow> u8 \<Rightarrow> u8 \<Rightarrow> nat" where
  "bus_addr a2 a1 a0 = unat a2 * 65536 + unat a1 * 256 + unat a0"

primrec nor_program :: "nat \<Rightarrow> u8 list \<Rightarrow> (nat \<Rightarrow> u8) \<Rightarrow> nat \<Rightarrow> u8" where
  "nor_program a [] m = m"
| "nor_program a (x # xs) m =
     nor_program (a div 256 * 256 + (a + 1) mod 256) xs (m(a := m a AND x))"

definition nor_erase :: "nat \<Rightarrow> nat \<Rightarrow> (nat \<Rightarrow> u8) \<Rightarrow> nat \<Rightarrow> u8" where
  "nor_erase sz a m = (\<lambda>x. if x div sz = a div sz then 0xFF else m x)"

fun chip_write :: "u8 list \<Rightarrow> (nat \<Rightarrow> u8) \<Rightarrow> nat \<Rightarrow> u8" where
  "chip_write (c # a2 # a1 # a0 # d) m =
     (if c = CMD_PP then nor_program (bus_addr a2 a1 a0) d m
      else if c = CMD_SE_4K \<and> d = [] then nor_erase 4096 (bus_addr a2 a1 a0) m
      else if c = CMD_BE_64K \<and> d = [] then nor_erase 65536 (bus_addr a2 a1 a0) m
      else m)"
| "chip_write [c] m = (if c = CMD_CHIP_ERASE then (\<lambda>x. 0xFF) else m)"
| "chip_write tx m = m"

definition nor_read :: "(nat \<Rightarrow> u8) \<Rightarrow> nat \<Rightarrow> nat \<Rightarrow> u8 list" where
  "nor_read m a len = map (\<lambda>i. m ((a + i) mod 2 ^ 24)) [0..<len]"

fun chip_read :: "world \<Rightarrow> u8 list \<Rightarrow> nat \<Rightarrow> u8 list" where
  "chip_read w [c, a2, a1, a0] len =
     (if c = CMD_READ then nor_read (nor w) (bus_addr a2 a1 a0) len else replicate len 0)"
| "chip_read w [c] len =
     (if c = CMD_JEDEC_ID
      then take len [manuf_id (chip_jedec w), mem_type (chip_jedec w), capacity_id (chip_jedec w)]
      else replicate len 0)"
| "chip_read w tx len = replicate len 0"

subsection \<open>Bus transport\<close>

text \<open>
  One chip-select frame: \<open>flash_cs_low(); spi_write_blocking(tx); flash_cs_high();\<close>
  and the same with \<open>spi_read_blocking\<close> of \<open>len\<close> bytes before the select line
  goes high.
\<close>

definition spi_write_frame :: "u8 list \<Rightarrow> world \<Rightarrow> world" where
  "spi_write_frame tx w = w\<lparr>nor := chip_write tx (nor w), bus := bus w @ [Frame tx 0]\<rparr>"

definition spi_read_frame :: "u8 list \<Rightarrow> nat \<Rightarrow> world \<Rightarrow> u8 list \<times> world" where
  "spi_read_frame tx len w = (chip_read w tx len, w\<lparr>bus := bus w @ [Frame tx len]\<rparr>)"

definition to_ms_since_boot :: "world \<Rightarrow> u32 \<times> world" where
  "to_ms_since_boot w = (clock_feed w 0, w\<lparr>clock_feed := (\<lambda>k. clock_feed w (Suc k))\<rparr>)"

text \<open>
  \<open>sleep_ms\<close> only lets time pass; what the clock shows afterwards is in
  \<open>clock_feed\<close> already.
\<close>

definition sleep_ms :: "nat \<Rightarrow> world \<Rightarrow> world" where
  "sleep_ms ms w = w"

definition malloc :: "nat \<Rightarrow> world \<Rightarrow> bool \<times> world" where
  "malloc n w = (malloc_feed w 0, w\<lparr>malloc_feed := (\<lambda>k. malloc_feed w (Suc k))\<rparr>)"

section \<open>Flash driver\<close>

definition flash_cmd1 :: "u8 \<Rightarrow> world \<Rightarrow> world" where
  "flash_cmd1 cmd w = spi_write_frame [cmd] w"

definition flash_wren :: "world \<Rightarrow> world" where
  "flash_wren w = flash_cmd1 CMD_WREN w"

text \<open>
  \<^verbatim>\<open>
  static uint8_t flash_read_sr1(void) {
      uint8_t tx[2] = { CMD_RDSR1, 0x00 }, rx[2] = {0};
      flash_cs_low();
      spi_write_read_blocking(FLASH_SPI_PORT, tx, rx, 2);
      flash_cs_high();
      return rx[1];
  }
  \<close>
\<close>

definition flash_read_sr1 :: "world \<Rightarrow> u8 \<times> world" where
  "flash_read_sr1 w =
     (sr1_feed w 0,
      w\<lparr>bus := bus w @ [Frame [CMD_RDSR1, 0x00] 2], sr1_feed := (\<lambda>k. sr1_feed w (Suc k))\<rparr>)"

definition flash_read_sr2 :: "world \<Rightarrow> u8 \<times> world" where
  "flash_read_sr2 w = (sr2_val w, w\<lparr>bus := bus w @ [Frame [CMD_RDSR2, 0x00] 2]\<rparr>)"

text \<open>
  \<^verbatim>\<open>
  static bool flash_wait_busy_timeout(uint32_t timeout_ms) {
      uint32_t t0 = to_ms_since_boot(get_absolute_time());
      while (true) {
          if ((flash_read_sr1() & 0x01) == 0) return true; // WIP=0
          if (to_ms_since_boot(get_absolute_time()) - t0 > timeout_ms) return false;
      }
  }
  \<close>
  The loop has no bound of its own: with a chip that stays busy and a clock that stands
  still it never returns, which is the value \<open>None\<close>.
\<close>

partial_function (option) wait_busy_loop :: "u32 \<Rightarrow> u32 \<Rightarrow> world \<Rightarrow> (bool \<times> world) option" where
  "wait_busy_loop t0 timeout_ms w =
     (case flash_read_sr1 w of (s, w1) \<Rightarrow>
        if s AND 0x01 = 0 then Some (True, w1)
        else (case to_ms_since_boot w1 of (t, w2) \<Rightarrow>
                if t - t0 > timeout_ms then Some (False, w2)
                else wait_busy_loop t0 timeout_ms w2))"

declare wait_busy_loop.simps [code]

definition flash_wait_busy_timeout :: "u32 \<Rightarrow> world \<Rightarrow> (bool \<times> world) option" where
  "flash_wait_busy_timeout timeout_ms w =
     (case to_ms_since_boot w of (t0, w1) \<Rightarrow> wait_busy_loop t0 timeout_ms w1)"

definition flash_soft_reset :: "world \<Rightarrow> world" where
  "flash_soft_reset w = sleep_ms 10 (flash_cmd1 CMD_RST (sleep_ms 1 (flash_cmd1 CMD_RSTEN w)))"

definition flash_resume :: "world \<Rightarrow> world" where
  "flash_resume w = flash_cmd1 CMD_RESUME w"

text \<open>
  \<^verbatim>\<open>
  static void flash_global_unprotect(void) {
      flash_cmd1(CMD_ULBPR);
      sleep_ms(1);
      flash_wren();
      uint8_t wr[3] = { CMD_WRSR, 0x00, 0x00 }; // SR1=0, SR2=0
      flash_cs_low();
      spi_write_blocking(FLASH_SPI_PORT, wr, 3);
      flash_cs_high();
      (void)flash_wait_busy_timeout(200);
      (void)flash_read_sr1();
      (void)flash_read_sr2();
  }
  \<close>
\<close>

definition flash_global_unprotect :: "world \<Rightarrow> world option" where
  "flash_global_unprotect w =
     (case flash_wait_busy_timeout 200
             (spi_write_frame [CMD_WRSR, 0x00, 0x00] (flash_wren (sleep_ms 1 (flash_cmd1 CMD_ULBPR w)))) of
        None \<Rightarrow> None
      | Some (ok, w1) \<Rightarrow> Some (snd (flash_read_sr2 (snd (flash_read_sr1 w1)))))"

text \<open>
  \<open>flash_dut_init\<close> configures the SPI block and the pins, which puts nothing on the
  bus, then resets and unprotects the chip. It returns \<open>true\<close> whenever it returns.
\<close>

definition flash_dut_init :: "world \<Rightarrow> (bool \<times> world) option" where
  "flash_dut_init w =
     (case flash_global_unprotect (flash_soft_reset w) of
        None \<Rightarrow> None
      | Some w1 \<Rightarrow> Some (True, w1))"

text \<open>
  \<open>flash_dut_read_jedec\<close> is only ever called with the address of a local variable, so
  its null-pointer guard is left out.
\<close>

definition flash_dut_read_jedec :: "world \<Rightarrow> (bool \<times> jedec_info_t) \<times> world" where
  "flash_dut_read_jedec w =
     (case spi_read_frame [CMD_JEDEC_ID] 3 w of (rx, w1) \<Rightarrow>
        ((True, \<lparr>manuf_id = rx ! 0, mem_type = rx ! 1, capacity_id = rx ! 2\<rparr>), w1))"

definition flash_dut_probe_capacity_sfdp :: "bool \<times> u32" where
  "flash_dut_probe_capacity_sfdp = (False, 0)"

definition addr_hdr :: "u8 \<Rightarrow> u32 \<Rightarrow> u8 list" where
  "addr_hdr cmd addr = [cmd, ucast (drop_bit 16 addr), ucast (drop_bit 8 addr), ucast addr]"

text \<open>
  \<^verbatim>\<open>
  static bool flash_dut_read(uint32_t addr, uint8_t *buf, size_t len) {
      if (!buf || !len) return false;
      uint8_t hdr[4] = { CMD_READ, (uint8_t)(addr >> 16), (uint8_t)(addr >> 8), (uint8_t) addr };
      flash_cs_low();
      spi_write_blocking(FLASH_SPI_PORT, hdr, 4);
      spi_read_blocking(FLASH_SPI_PORT, 0, buf, len);
      flash_cs_high();
      return true;
  }
  \<close>
  The buffer is always an allocated one in the callers; the result \<open>None\<close> is the
  return value \<open>false\<close>, \<open>Some buf\<close> is \<open>true\<close> with the bytes read.
\<close>

definition flash_dut_read :: "u32 \<Rightarrow> nat \<Rightarrow> world \<Rightarrow> u8 list option \<times> world" where
  "flash_dut_read addr len w =
     (if len = 0 then (None, w)
      else (case spi_read_frame (addr_hdr CMD_READ addr) len w of (buf, w1) \<Rightarrow> (Some buf, w1)))"

text \<open>
  \<^verbatim>\<open>
  // len: 1..256, caller handles page boundaries
  static bool flash_dut_program_page(uint32_t addr, const uint8_t *data, size_t len) {
      if (!data || !len || len > FLASH_PAGE_SIZE) return false;
      flash_wren();
      uint8_t hdr[4] = { CMD_PP, (uint8_t)(addr >> 16), (uint8_t)(addr >> 8), (uint8_t) addr };
      flash_cs_low();
      spi_write_blocking(FLASH_SPI_PORT, hdr, 4);
      spi_write_blocking(FLASH_SPI_PORT, data, len);
      flash_cs_high();
      return flash_wait_busy_timeout(10 * 1000);
  }
  \<close>
  The pointer with its length is a byte list, \<open>None\<close> the null pointer.
\<close>

definition flash_dut_program_page :: "u32 \<Rightarrow> u8 list option \<Rightarrow> world \<Rightarrow> (bool \<times> world) option" where
  "flash_dut_program_page addr data w =
     (case data of
        None \<Rightarrow> Some (False, w)
      | Some d \<Rightarrow>
          if length d = 0 \<or> length d > unat FLASH_PAGE_SIZE then Some (False, w)
          else flash_wait_busy_timeout (10 * 1000)
                 (spi_write_frame (addr_hdr CMD_PP addr @ d) (flash_wren w)))"

text \<open>
  \<^verbatim>\<open>
  static bool flash_dut_erase_4k(uint32_t addr) {
      uint8_t cmd[4] = { CMD_SE_4K, (uint8_t)(addr >> 16), (uint8_t)(addr >> 8), (uint8_t) addr };
      flash_global_unprotect();
      flash_wren();
      flash_cs_low(); spi_write_blocking(FLASH_SPI_PORT, cmd, 4); flash_cs_high();
      if (!flash_wait_busy_timeout(2000)) {
          uint8_t sr1 = flash_read_sr1();
          uint8_t sr2 = flash_read_sr2();
          flash_resume();
          flash_soft_reset();
          flash_global_unprotect();
          flash_wren();
          flash_cs_low(); spi_write_blocking(FLASH_SPI_PORT, cmd, 4); flash_cs_high();
          if (!flash_wait_busy_timeout(3000)) {
              sr1 = flash_read_sr1();
              sr2 = flash_read_sr2();
              return false;
          }
      }
      return true;
  }
  \<close>
  \<open>erase_issue\<close> is the write-enable followed by the erase frame, which the source
  writes out twice; \<open>erase_diag\<close> the two status reads made for the message.
\<close>

definition erase_issue :: "u32 \<Rightarrow> world \<Rightarrow> world" where
  "erase_issue addr w = spi_write_frame (addr_hdr CMD_SE_4K addr) (flash_wren w)"

definition erase_diag :: "world \<Rightarrow> world" where
  "erase_diag w = snd (flash_read_sr2 (snd (flash_read_sr1 w)))"

definition flash_dut_erase_4k :: "u32 \<Rightarrow> world \<Rightarrow> (bool \<times> world) option" where
  "flash_dut_erase_4k addr w =
     (case flash_global_unprotect w of None \<Rightarrow> None | Some w1 \<Rightarrow>
      case flash_wait_busy_timeout 2000 (erase_issue addr w1) of None \<Rightarrow> None
      | Some (True, w2) \<Rightarrow> Some (True, w2)
      | Some (False, w2) \<Rightarrow>
         (case flash_global_unprotect (flash_soft_reset (flash_resume (erase_diag w2))) of
            None \<Rightarrow> None | Some w3 \<Rightarrow>
          case flash_wait_busy_timeout 3000 (erase_issue addr w3) of None \<Rightarrow> None
          | Some (True, w4) \<Rightarrow> Some (True, w4)
          | Some (False, w4) \<Rightarrow> Some (False, erase_diag w4)))"

section \<open>The card: FatFs as the program uses it\<close>

datatype FRESULT = FR_OK | FR_NO_FILE | FR_NO_PATH

record FIL =
  fpath :: string
  fptr :: nat

definition fs_mount_once :: "world \<Rightarrow> bool \<times> world" where
  "fs_mount_once w =
     (if mounted w then (True, w)
      else if \<not> card_ok w then (False, w)
      else (True, w\<lparr>mounted := True\<rparr>))"

definition f_open_read :: "world \<Rightarrow> string \<Rightarrow> FRESULT \<times> FIL" where
  "f_open_read w name =
     (case sd_files w name of
        None \<Rightarrow> (FR_NO_FILE, \<lparr>fpath = name, fptr = 0\<rparr>)
      | Some content \<Rightarrow> (FR_OK, \<lparr>fpath = name, fptr = 0\<rparr>))"

definition f_open_create :: "string \<Rightarrow> world \<Rightarrow> (FRESULT \<times> FIL) \<times> world" where
  "f_open_create name w =
     ((FR_OK, \<lparr>fpath = name, fptr = 0\<rparr>), w\<lparr>sd_files := (sd_files w)(name \<mapsto> [])\<rparr>)"

definition f_read :: "world \<Rightarrow> FIL \<Rightarrow> nat \<Rightarrow> (FRESULT \<times> u8 list) \<times> FIL" where
  "f_read w fp btr =
     (case sd_files w (fpath fp) of
        None \<Rightarrow> ((FR_NO_FILE, []), fp)
      | Some content \<Rightarrow>
          let buf = take btr (drop (fptr fp) content)
          in ((FR_OK, buf), fp\<lparr>fptr := fptr fp + length buf\<rparr>))"

definition f_write :: "FIL \<Rightarrow> u8 list \<Rightarrow> world \<Rightarrow> (FRESULT \<times> nat) \<times> FIL \<times> world" where
  "f_write fp buf w =
     (case sd_files w (fpath fp) of
        None \<Rightarrow> ((FR_NO_FILE, 0), fp, w)
      | Some content \<Rightarrow>
          ((FR_OK, length buf), fp\<lparr>fptr := fptr fp + length buf\<rparr>,
           w\<lparr>sd_files := (sd_files w)(fpath fp \<mapsto>
                take (fptr fp) content @ buf @ drop (fptr fp + length buf) content)\<rparr>))"

definition f_lseek :: "world \<Rightarrow> FIL \<Rightarrow> nat \<Rightarrow> FIL" where
  "f_lseek w fp ofs =
     (case sd_files w (fpath fp) of
        None \<Rightarrow> fp
      | Some content \<Rightarrow> fp\<lparr>fptr := min ofs (length content)\<rparr>)"

text \<open>\<open>ensure_folder\<close>: \<open>if (f_stat(DUMP_FOLDER, &i) != FR_OK) f_mkdir(DUMP_FOLDER);\<close>\<close>

definition ensure_folder :: "world \<Rightarrow> world" where
  "ensure_folder w = (case sd_dir w of None \<Rightarrow> w\<lparr>sd_dir := Some []\<rparr> | Some entries \<Rightarrow> w)"

section \<open>Image format\<close>

text \<open>
  \<^verbatim>\<open>
  typedef struct {
      char     magic[8];      // "FIMGv1\0"
      uint8_t  jedec[3];      // manuf, type, capacity_id
      uint8_t  reserved;
      uint32_t flash_size;    // bytes
      uint32_t chunk_size;    // e.g., 4096
      uint32_t image_size;    // bytes of image (usually == flash_size)
      uint32_t crc32_all;     // CRC-32 of the image data (no header)
  } __attribute__((packed)) flashimg_hdr_t;
  \<close>
  The struct is written to the file and read back as its 28 bytes of memory; the target
  is little-endian. \<open>hdr_bytes\<close> and \<open>hdr_of_bytes\<close> are that memory image.
\<close>

record flashimg_hdr_t =
  magic :: "u8 list"
  jedec :: "u8 list"
  reserved :: u8
  flash_size :: u32
  chunk_size :: u32
  image_size :: u32
  crc32_all :: u32

definition le32_bytes :: "u32 \<Rightarrow> u8 list" where
  "le32_bytes x = [ucast x, ucast (drop_bit 8 x), ucast (drop_bit 16 x), ucast (drop_bit 24 x)]"

definition le32_word :: "u8 list \<Rightarrow> u32" where
  "le32_word bs =
     ucast (bs ! 0) OR push_bit 8 (ucast (bs ! 1)) OR push_bit 16 (ucast (bs ! 2))
       OR push_bit 24 (ucast (bs ! 3))"

definition hdr_bytes :: "flashimg_hdr_t \<Rightarrow> u8 list" where
  "hdr_bytes h =
     take 8 (magic h) @ take 3 (jedec h) @ [reserved h] @ le32_bytes (flash_size h)
       @ le32_bytes (chunk_size h) @ le32_bytes (image_size h) @ le32_bytes (crc32_all h)"

definition hdr_of_bytes :: "u8 list \<Rightarrow> flashimg_hdr_t" where
  "hdr_of_bytes bs =
     \<lparr>magic = take 8 bs, jedec = take 3 (drop 8 bs), reserved = bs ! 11,
      flash_size = le32_word (drop 12 bs), chunk_size = le32_word (drop 16 bs),
      image_size = le32_word (drop 20 bs), crc32_all = le32_word (drop 24 bs)\<rparr>"

text \<open>The string literal \<open>"FIMGv1\0"\<close> is eight bytes with its terminator.\<close>

definition FIMG_MAGIC :: "u8 list" where
  "FIMG_MAGIC = ascii ''FIMGv1'' @ [0, 0]"

abbreviation (input) sizeof_hdr :: nat where "sizeof_hdr \<equiv> 28"

section \<open>Backup and restore\<close>

text \<open>
  \<^verbatim>\<open>
  static int crc32_over_flash(uint32_t total_bytes, uint32_t chunk_bytes, uint32_t *out_crc) {
      if (!out_crc || chunk_bytes == 0) return -1;
      uint8_t *buf = (uint8_t*)malloc(chunk_bytes);
      if (!buf) { printf("OOM.\n"); return -2; }
      uint32_t crc = 0, addr = 0, remain = total_bytes;
      while (remain) {
          uint32_t n = (remain > chunk_bytes) ? chunk_bytes : remain;
          if (!flash_dut_read(addr, buf, n)) { free(buf); return -3; }
          crc = crc32_update(crc, buf, n);
          addr   += n;
          remain -= n;
      }
      free(buf);
      *out_crc = crc;
      return 0;
  }
  \<close>
  The result is the return code with the value left in \<open>*out_crc\<close>, which the caller
  initialised to 0.
\<close>

partial_function (option) crc32_flash_loop ::
  "u32 \<Rightarrow> u32 \<Rightarrow> u32 \<Rightarrow> u32 \<Rightarrow> world \<Rightarrow> (u32 option \<times> world) option" where
  "crc32_flash_loop chunk_bytes crc addr remain w =
     (if remain \<noteq> 0 then
        let n = (if remain > chunk_bytes then chunk_bytes else remain) in
        case flash_dut_read addr (unat n) w of
          (None, w1) \<Rightarrow> Some (None, w1)
        | (Some buf, w1) \<Rightarrow>
            crc32_flash_loop chunk_bytes (crc32_update crc buf) (addr + n) (remain - n) w1
      else Some (Some crc, w))"

declare crc32_flash_loop.simps [code]

definition crc32_over_flash :: "u32 \<Rightarrow> u32 \<Rightarrow> world \<Rightarrow> ((int \<times> u32) \<times> world) option" where
  "crc32_over_flash total_bytes chunk_bytes w =
     (if chunk_bytes = 0 then Some ((-1, 0), w)
      else case malloc (unat chunk_bytes) w of
        (False, w1) \<Rightarrow> Some ((-2, 0), w1)
      | (True, w1) \<Rightarrow>
         (case crc32_flash_loop chunk_bytes 0 0 total_bytes w1 of
            None \<Rightarrow> None
          | Some (None, w2) \<Rightarrow> Some ((-3, 0), w2)
          | Some (Some crc, w2) \<Rightarrow> Some ((0, crc), w2)))"

subsection \<open>File names\<close>

text \<open>
  \<open>snprintf(out, n, "t%010u", ms)\<close> and
  \<open>snprintf(name, sizeof(name), "%s/%s_%02x%02x%02x.fimg", DUMP_FOLDER, stamp, ...)\<close>:
  ten decimal digits hold every 32-bit value, two hexadecimal digits every byte, and the
  buffers of 32 and 128 characters hold the results.
\<close>

primrec dec_digits :: "nat \<Rightarrow> nat \<Rightarrow> string" where
  "dec_digits 0 v = []"
| "dec_digits (Suc k) v = dec_digits k (v div 10) @ [char_of (48 + v mod 10)]"

definition hex_digit :: "nat \<Rightarrow> char" where
  "hex_digit d = (if d < 10 then char_of (48 + d) else char_of (87 + d))"

definition hex2 :: "u8 \<Rightarrow> string" where
  "hex2 b = [hex_digit (unat b div 16), hex_digit (unat b mod 16)]"

definition fmt_time :: "world \<Rightarrow> string \<times> world" where
  "fmt_time w = (case to_ms_since_boot w of (ms, w1) \<Rightarrow> (CHR ''t'' # dec_digits 10 (unat ms), w1))"

definition image_name :: "string \<Rightarrow> jedec_info_t \<Rightarrow> string" where
  "image_name stamp jid =
     DUMP_FOLDER @ ''/'' @ stamp @ ''_'' @ hex2 (manuf_id jid) @ hex2 (mem_type jid)
       @ hex2 (capacity_id jid) @ ''.fimg''"

subsection \<open>Backup\<close>

text \<open>
  The size of the chip as \<open>backup_flash_to_sd\<close> works it out:
  \<^verbatim>\<open>
  uint32_t flash_sz = 16u * 1024u * 1024u;   // default 16MB
  uint32_t sfdp = 0;
  if (flash_dut_probe_capacity_sfdp(&sfdp) && sfdp) {
      flash_sz = sfdp;
  } else {
      uint32_t by_jedec = flash_calculate_capacity(id.capacity_id);
      if (by_jedec) flash_sz = by_jedec;
  }
  \<close>
\<close>

definition backup_flash_sz :: "jedec_info_t \<Rightarrow> u32" where
  "backup_flash_sz jid =
     (case flash_dut_probe_capacity_sfdp of (ok, sfdp) \<Rightarrow>
        if ok \<and> sfdp \<noteq> 0 then sfdp
        else let by_jedec = flash_calculate_capacity (capacity_id jid)
             in if by_jedec \<noteq> 0 then by_jedec else 16 * 1024 * 1024)"

text \<open>
  The copy loop:
  \<^verbatim>\<open>
  uint32_t crc = 0, addr = 0, total = flash_sz;
  while (total) {
      uint32_t n = (total > CHUNK_BYTES) ? CHUNK_BYTES : total;
      if (!flash_dut_read(addr, buf, n)) { ...; return -7; }
      crc = crc32_update(crc, buf, n);
      if (f_write(&fp, buf, n, &bw) != FR_OK || bw != n) { ...; return -8; }
      addr  += n;
      total -= n;
  }
  \<close>
  (\<open>tot\<close> is the variable \<open>total\<close>.)
\<close>

function backup_loop ::
  "FIL \<Rightarrow> u32 \<Rightarrow> u32 \<Rightarrow> u32 \<Rightarrow> world \<Rightarrow> (int + u32 \<times> FIL) \<times> world" where
  "backup_loop fp crc addr tot w =
     (if tot \<noteq> 0 then
        let n = (if tot > CHUNK_BYTES then CHUNK_BYTES else tot) in
        case flash_dut_read addr (unat n) w of
          (None, w1) \<Rightarrow> (Inl (- 7), w1)
        | (Some buf, w1) \<Rightarrow>
            (case f_write fp buf w1 of
               ((fr, bw), fp1, w2) \<Rightarrow>
                 if fr \<noteq> FR_OK \<or> bw \<noteq> unat n then (Inl (- 8), w2)
                 else backup_loop fp1 (crc32_update crc buf) (addr + n) (tot - n) w2)
      else (Inr (crc, fp), w))"
  by pat_completeness auto
termination
proof (relation "measure (\<lambda>(fp, crc, addr, tot, w). unat tot)")
  show "wf (measure (\<lambda>(fp, crc, addr, tot, w). unat tot))"
    by simp
next
  fix fp :: FIL and crc addr tot :: u32 and w :: world and n :: u32
    and x y x2 w1 xa ya xb yb fp1 w2 xc
  assume "tot \<noteq> 0" and n: "n = (if CHUNK_BYTES < tot then CHUNK_BYTES else tot)"
  have "n \<noteq> 0" "n \<le> tot"
    using \<open>tot \<noteq> 0\<close> by (auto simp: n)
  then have "0 < unat n" "unat n \<le> unat tot"
    by (simp_all add: unat_gt_0 word_le_nat_alt)
  then have "unat (tot - n) < unat tot"
    using \<open>n \<le> tot\<close> by (simp add: unat_sub)
  then show "((fp1, crc32_update crc x2, addr + n, tot - n, w2), fp, crc, addr, tot, w)
      \<in> measure (\<lambda>(fp, crc, addr, tot, w). unat tot)"
    by simp
qed

declare backup_loop.simps [simp del]

definition backup_flash_to_sd :: "world \<Rightarrow> (int \<times> world) option" where
  "backup_flash_to_sd w0 =
     (case fs_mount_once w0 of
        (False, w1) \<Rightarrow> Some (- 1, w1)
      | (True, w1) \<Rightarrow>
     case flash_dut_init w1 of
        None \<Rightarrow> None
      | Some (False, w2) \<Rightarrow> Some (- 2, w2)
      | Some (True, w2) \<Rightarrow>
     case flash_dut_read_jedec w2 of
        ((False, jid), w3) \<Rightarrow> Some (- 3, w3)
      | ((True, jid), w3) \<Rightarrow>
     let flash_sz = backup_flash_sz jid in
     case fmt_time (ensure_folder w3) of (stamp, w4) \<Rightarrow>
     let name = image_name stamp jid in
     case f_open_create name w4 of ((fr, fp), w5) \<Rightarrow>
     if fr \<noteq> FR_OK then Some (- 4, w5) else
     let h = \<lparr>magic = FIMG_MAGIC,
              jedec = [manuf_id jid, mem_type jid, capacity_id jid], reserved = 0,
              flash_size = flash_sz, chunk_size = CHUNK_BYTES, image_size = flash_sz,
              crc32_all = 0\<rparr> in
     case f_write fp (hdr_bytes h) w5 of ((fr, bw), fp1, w6) \<Rightarrow>
     if fr \<noteq> FR_OK \<or> bw \<noteq> sizeof_hdr then Some (- 5, w6) else
     case malloc (unat CHUNK_BYTES) w6 of
        (False, w7) \<Rightarrow> Some (- 6, w7)
      | (True, w7) \<Rightarrow>
     case backup_loop fp1 0 0 flash_sz w7 of
        (Inl rc, w8) \<Rightarrow> Some (rc, w8)
      | (Inr (crc, fp2), w8) \<Rightarrow>
     case f_write fp2 (le32_bytes crc) w8 of ((fr, bw), fp3, w9) \<Rightarrow>
     if fr \<noteq> FR_OK \<or> bw \<noteq> 4 then Some (- 9, w9) else
     case f_write (f_lseek w9 fp3 0) (hdr_bytes (h\<lparr>crc32_all := crc\<rparr>)) w9 of
        ((fr, bw), fp4, w10) \<Rightarrow> Some (0, w10))"

subsection \<open>Choosing the newest image\<close>

text \<open>
  \<open>strstr(hay, needle) != NULL\<close> and the sign of \<open>strcmp\<close>, on strings without
  their terminator.
\<close>

primrec strstr :: "string \<Rightarrow> string \<Rightarrow> bool" where
  "strstr [] needle = (needle = [])"
| "strstr (c # cs) needle = (take (length needle) (c # cs) = needle \<or> strstr cs needle)"

fun strcmp :: "string \<Rightarrow> string \<Rightarrow> int" where
  "strcmp [] [] = 0"
| "strcmp [] (y # ys) = - int (of_char y)"
| "strcmp (x # xs) [] = int (of_char x)"
| "strcmp (x # xs) (y # ys) =
     (if x = y then strcmp xs ys else int (of_char x) - int (of_char y))"

text \<open>
  \<^verbatim>\<open>
  static int choose_latest_image(char *out, size_t n) {
      DIR d; FILINFO f;
      WORD best_date = 0, best_time = 0;
      char best_path[128] = {0};
      if (f_opendir(&d, DUMP_FOLDER) != FR_OK) return -1;
      while (f_readdir(&d, &f) == FR_OK && f.fname[0]) {
          if (!strstr(f.fname, ".fimg")) continue;
          bool newer = false;
          if (f.fdate || f.ftime) {
              if (f.fdate > best_date ||
                 (f.fdate == best_date && f.ftime > best_time)) {
                  newer = true;
              }
          } else {
              if (!best_path[0] || strcmp(f.fname, best_path) > 0) {
                  newer = true;
              }
          }
          if (newer) {
              best_date = f.fdate;
              best_time = f.ftime;
              snprintf(best_path, sizeof(best_path), "%s/%s", DUMP_FOLDER, f.fname);
          }
      }
      f_closedir(&d);
      if (!best_path[0]) return -1;
      snprintf(out, n, "%s", best_path);
      return 0;
  }
  \<close>
  The loop runs over the entries \<open>f_readdir\<close> delivers and stops at the first one
  with an empty name; \<open>snprintf\<close> into 128 characters keeps at most 127. The result
  \<open>None\<close> is the return value \<open>-1\<close>, \<open>Some path\<close> is 0 with the path in \<open>out\<close>
  (the only caller passes a buffer of 128 characters as well).
\<close>

fun choose_loop :: "FILINFO list \<Rightarrow> u16 \<Rightarrow> u16 \<Rightarrow> string \<Rightarrow> string" where
  "choose_loop [] best_date best_time best_path = best_path"
| "choose_loop (f # fs) best_date best_time best_path =
     (if fname f = [] then best_path
      else if \<not> strstr (fname f) ''.fimg'' then choose_loop fs best_date best_time best_path
      else
        let newer =
          (if fdate f \<noteq> 0 \<or> ftime f \<noteq> 0
           then fdate f > best_date \<or> (fdate f = best_date \<and> ftime f > best_time)
           else best_path = [] \<or> strcmp (fname f) best_path > 0)
        in if newer
           then choose_loop fs (fdate f) (ftime f) (take 127 (DUMP_FOLDER @ ''/'' @ fname f))
           else choose_loop fs best_date best_time best_path)"

definition choose_latest_image :: "world \<Rightarrow> string option" where
  "choose_latest_image w =
     (case sd_dir w of
        None \<Rightarrow> None
      | Some entries \<Rightarrow>
          let best_path = choose_loop entries 0 0 []
          in if best_path = [] then None else Some (take 127 best_path))"

subsection \<open>Restore\<close>

text \<open>
  \<open>restore_flash_from_sd\<close> is one long function in the source; its commented stages
  are the definitions below, in the order of the source.

  The target: \<open>if (!name || !*name)\<close> picks the newest image.
\<close>

definition restore_target :: "string option \<Rightarrow> world \<Rightarrow> string option" where
  "restore_target name w =
     (case name of
        None \<Rightarrow> choose_latest_image w
      | Some s \<Rightarrow> if s = [] then choose_latest_image w else Some s)"

text \<open>
  \<^verbatim>\<open>
  // ----- Read and validate header -----
  flashimg_hdr_t h = {0};
  if (f_read(&fp, &h, sizeof(h), &br) != FR_OK || br != sizeof(h) ||
      memcmp(h.magic, "FIMGv1\0", 8) != 0) { f_close(&fp); return -5; }
  if (h.image_size == 0 || h.chunk_size == 0) { f_close(&fp); return -6; }
  \<close>
\<close>

definition restore_read_header :: "world \<Rightarrow> FIL \<Rightarrow> int + flashimg_hdr_t \<times> FIL" where
  "restore_read_header w fp =
     (case f_read w fp sizeof_hdr of
        ((fr, hb), fp1) \<Rightarrow>
          if fr \<noteq> FR_OK \<or> length hb \<noteq> sizeof_hdr \<or> magic (hdr_of_bytes hb) \<noteq> FIMG_MAGIC
          then Inl (- 5)
          else let h = hdr_of_bytes hb
               in if image_size h = 0 \<or> chunk_size h = 0 then Inl (- 6) else Inr (h, fp1))"

text \<open>
  \<^verbatim>\<open>
  // ----- Recompute CRC over image data and compare with header & trailer -----
  uint32_t crc_calc = 0; uint32_t remain = h.image_size; uint32_t data_start = sizeof(h);
  f_lseek(&fp, data_start);
  while (remain) {
      uint32_t n = (remain > chunk_bytes) ? chunk_bytes : remain;
      if (f_read(&fp, buf, n, &br) != FR_OK || br != n) { ...; return -8; }
      crc_calc = crc32_update(crc_calc, buf, n);
      remain  -= n;
  }
  uint32_t crc_file_trailer = 0;
  if (f_read(&fp, &crc_file_trailer, sizeof(crc_file_trailer), &br) != FR_OK ||
      br != sizeof(crc_file_trailer)) { ...; return -9; }
  if (crc_calc != crc_file_trailer || crc_calc != h.crc32_all) { ...; return -10; }
  \<close>
\<close>

partial_function (option) restore_crc_loop ::
  "world \<Rightarrow> u32 \<Rightarrow> FIL \<Rightarrow> u32 \<Rightarrow> u32 \<Rightarrow> (u32 \<times> FIL) option option" where
  "restore_crc_loop w chunk_bytes fp crc_calc remain =
     (if remain \<noteq> 0 then
        let n = (if remain > chunk_bytes then chunk_bytes else remain) in
        case f_read w fp (unat n) of
          ((fr, buf), fp1) \<Rightarrow>
            if fr \<noteq> FR_OK \<or> length buf \<noteq> unat n then Some None
            else restore_crc_loop w chunk_bytes fp1 (crc32_update crc_calc buf) (remain - n)
      else Some (Some (crc_calc, fp)))"

declare restore_crc_loop.simps [code]

definition restore_check_crc :: "world \<Rightarrow> FIL \<Rightarrow> flashimg_hdr_t \<Rightarrow> (int + FIL) option" where
  "restore_check_crc w fp h =
     (case restore_crc_loop w (chunk_size h) (f_lseek w fp sizeof_hdr) 0 (image_size h) of
        None \<Rightarrow> None
      | Some None \<Rightarrow> Some (Inl (- 8))
      | Some (Some (crc_calc, fp1)) \<Rightarrow>
          (case f_read w fp1 4 of
             ((fr, tb), fp2) \<Rightarrow>
               if fr \<noteq> FR_OK \<or> length tb \<noteq> 4 then Some (Inl (- 9))
               else let crc_file_trailer = le32_word tb
                    in if crc_calc \<noteq> crc_file_trailer \<or> crc_calc \<noteq> crc32_all h
                       then Some (Inl (- 10))
                       else Some (Inr fp2)))"

text \<open>
  \<^verbatim>\<open>
  // ----- Erase flash (up to flash_size from header) -----
  for (uint32_t a = 0; a < h.flash_size; a += FLASH_SECTOR_SIZE) {
      if (!flash_dut_erase_4k(a)) { ...; return -11; }
  }
  \<close>
\<close>

partial_function (option) restore_erase_loop ::
  "u32 \<Rightarrow> u32 \<Rightarrow> world \<Rightarrow> (bool \<times> world) option" where
  "restore_erase_loop a fsize w =
     (if a < fsize then
        case flash_dut_erase_4k a w of
          None \<Rightarrow> None
        | Some (ok, w1) \<Rightarrow>
            if \<not> ok then Some (False, w1)
            else restore_erase_loop (a + FLASH_SECTOR_SIZE) fsize w1
      else Some (True, w))"

declare restore_erase_loop.simps [code]

text \<open>
  \<^verbatim>\<open>
  // ----- Program flash from image -----
  uint32_t addr = 0; remain = h.image_size;
  f_lseek(&fp, data_start);   // go back to start of data
  while (remain) {
      uint32_t n = (remain > chunk_bytes) ? chunk_bytes : remain;
      if (f_read(&fp, buf, n, &br) != FR_OK || br != n) { ...; return -12; }
      // Split into page-sized writes
      uint32_t off = 0;
      while (off < n) {
          uint32_t page_off = (addr + off) & (FLASH_PAGE_SIZE - 1);
          uint32_t room     = FLASH_PAGE_SIZE - page_off;
          uint32_t w        = (n - off > room) ? room : (n - off);
          if (!flash_dut_program_page(addr + off, buf + off, w)) { ...; return -13; }
          off += w;
      }
      addr   += n;
      remain -= n;
  }
  \<close>
  \<open>restore_page_loop\<close> is the inner loop (its variable \<open>w\<close> is \<open>wr\<close> here);
  \<open>restore_program_loop\<close> the outer one, whose result is the return code on an early
  return and 0 when the loop has run to its end.
\<close>

partial_function (option) restore_page_loop ::
  "u32 \<Rightarrow> u8 list \<Rightarrow> u32 \<Rightarrow> u32 \<Rightarrow> world \<Rightarrow> (bool \<times> world) option" where
  "restore_page_loop addr buf n off w =
     (if off < n then
        let page_off = (addr + off) AND (FLASH_PAGE_SIZE - 1);
            room = FLASH_PAGE_SIZE - page_off;
            wr = (if n - off > room then room else n - off)
        in case flash_dut_program_page (addr + off)
                  (Some (take (unat wr) (drop (unat off) buf))) w of
             None \<Rightarrow> None
           | Some (ok, w1) \<Rightarrow>
               if \<not> ok then Some (False, w1)
               else restore_page_loop addr buf n (off + wr) w1
      else Some (True, w))"

declare restore_page_loop.simps [code]

partial_function (option) restore_program_loop ::
  "u32 \<Rightarrow> FIL \<Rightarrow> u32 \<Rightarrow> u32 \<Rightarrow> world \<Rightarrow> (int \<times> world) option" where
  "restore_program_loop chunk_bytes fp addr remain w =
     (if remain \<noteq> 0 then
        let n = (if remain > chunk_bytes then chunk_bytes else remain) in
        case f_read w fp (unat n) of
          ((fr, buf), fp1) \<Rightarrow>
            if fr \<noteq> FR_OK \<or> length buf \<noteq> unat n then Some (- 12, w)
            else (case restore_page_loop addr buf n 0 w of
                    None \<Rightarrow> None
                  | Some (ok, w1) \<Rightarrow>
                      if \<not> ok then Some (- 13, w1)
                      else restore_program_loop chunk_bytes fp1 (addr + n) (remain - n) w1)
      else Some (0, w))"

declare restore_program_loop.simps [code]

text \<open>
  \<^verbatim>\<open>
  // ----- Final CRC over live flash -----
  uint32_t crc_flash = 0;
  int crc_rc = crc32_over_flash(h.image_size, h.chunk_size, &crc_flash);
  if (crc_rc != 0) { ...; return -14; }
  if (crc_flash != h.crc32_all) { ...; return -15; }
  return 0;
  \<close>
\<close>

definition restore_verify :: "flashimg_hdr_t \<Rightarrow> world \<Rightarrow> (int \<times> world) option" where
  "restore_verify h w =
     (case crc32_over_flash (image_size h) (chunk_size h) w of
        None \<Rightarrow> None
      | Some ((crc_rc, crc_flash), w1) \<Rightarrow>
          if crc_rc \<noteq> 0 then Some (- 14, w1)
          else if crc_flash \<noteq> crc32_all h then Some (- 15, w1)
          else Some (0, w1))"

text \<open>
  The part of \<open>restore_flash_from_sd\<close> that runs once the header is accepted and the
  chunk buffer allocated: check the image, erase, program, verify.
\<close>

definition restore_image :: "flashimg_hdr_t \<Rightarrow> FIL \<Rightarrow> world \<Rightarrow> (int \<times> world) option" where
  "restore_image h fp1 w3 =
     (case restore_check_crc w3 fp1 h of
        None \<Rightarrow> None
      | Some (Inl rc) \<Rightarrow> Some (rc, w3)
      | Some (Inr fp2) \<Rightarrow>
     case restore_erase_loop 0 (flash_size h) w3 of
        None \<Rightarrow> None
      | Some (ok, w4) \<Rightarrow>
     if \<not> ok then Some (- 11, w4) else
     case restore_program_loop (chunk_size h) (f_lseek w4 fp2 sizeof_hdr) 0 (image_size h) w4 of
        None \<Rightarrow> None
      | Some (rc, w5) \<Rightarrow>
     if rc \<noteq> 0 then Some (rc, w5) else restore_verify h w5)"

definition restore_flash_from_sd :: "string option \<Rightarrow> world \<Rightarrow> (int \<times> world) option" where
  "restore_flash_from_sd name w0 =
     (case fs_mount_once w0 of (mounted_ok, w1) \<Rightarrow>
     if \<not> mounted_ok then Some (- 1, w1) else
     case flash_dut_init w1 of
        None \<Rightarrow> None
      | Some (init_ok, w2) \<Rightarrow>
     if \<not> init_ok then Some (- 2, w2) else
     case restore_target name w2 of
        None \<Rightarrow> Some (- 3, w2)
      | Some path \<Rightarrow>
     case f_open_read w2 path of (fr, fp) \<Rightarrow>
     if fr \<noteq> FR_OK then Some (- 4, w2) else
     case restore_read_header w2 fp of
        Inl rc \<Rightarrow> Some (rc, w2)
      | Inr (h, fp1) \<Rightarrow>
     case malloc (unat (chunk_size h)) w2 of (buf_ok, w3) \<Rightarrow>
     if \<not> buf_ok then Some (- 7, w3) else restore_image h fp1 w3)"

section \<open>Vocabulary of the statements\<close>

text \<open>
  \<open>polled k j w\<close> is the world after \<open>k\<close> more reads of status register 1 and
  \<open>j\<close> more readings of the clock: the frames are on the bus and the feeds have moved
  on. Nothing else changes while the driver waits.
\<close>

definition SR1_FRAME :: frame where "SR1_FRAME = Frame [CMD_RDSR1, 0x00] 2"

definition SR2_FRAME :: frame where "SR2_FRAME = Frame [CMD_RDSR2, 0x00] 2"

definition polled :: "nat \<Rightarrow> nat \<Rightarrow> world \<Rightarrow> world" where
  "polled k j w = w\<lparr>bus := bus w @ replicate k SR1_FRAME,
                    sr1_feed := (\<lambda>i. sr1_feed w (i + k)),
                    clock_feed := (\<lambda>i. clock_feed w (i + j))\<rparr>"

text \<open>
  The opcodes of the frames on the bus, status reads left out: what the driver asked the
  chip to do, in order.
\<close>

definition bus_commands :: "frame list \<Rightarrow> u8 list" where
  "bus_commands fs = filter (\<lambda>c. c \<noteq> CMD_RDSR1 \<and> c \<noteq> CMD_RDSR2) (map (\<lambda>f. hd (mosi f)) fs)"

text \<open>The precondition of \<open>flash_dut_program_page\<close> on its data: not null, 1 to 256 bytes.\<close>

definition page_data_ok :: "u8 list option \<Rightarrow> bool" where
  "page_data_ok data = (case data of None \<Rightarrow> False | Some d \<Rightarrow> 0 < length d \<and> length d \<le> 256)"

text \<open>
  The world after \<open>flash_global_unprotect\<close> on a chip that answers ready to the first
  status read.
\<close>

definition unprotected :: "world \<Rightarrow> world" where
  "unprotected w =
     snd (flash_read_sr2 (snd (flash_read_sr1 (polled 1 1
       (spi_write_frame [CMD_WRSR, 0x00, 0x00]
          (flash_wren (sleep_ms 1 (flash_cmd1 CMD_ULBPR w))))))))"

subsection \<open>Example worlds\<close>

text \<open>
  \<open>idle_world\<close>: an erased chip that is never busy, an empty card. \<open>busy_world\<close>: the
  same chip, but busy at the third status read, with a clock that advances 3000 ms from
  one reading to the next.
\<close>

definition idle_world :: world where
  "idle_world =
     \<lparr>nor = (\<lambda>a. 0xFF), bus = [],
      chip_jedec = \<lparr>manuf_id = 0xEF, mem_type = 0x40, capacity_id = 0x10\<rparr>,
      sr1_feed = (\<lambda>k. 0), sr2_val = 0,
      clock_feed = (\<lambda>k. of_nat k), malloc_feed = (\<lambda>k. True),
      card_ok = True, mounted = False, sd_files = (\<lambda>p. None), sd_dir = None\<rparr>"

definition busy_world :: world where
  "busy_world =
     \<lparr>nor = (\<lambda>a. 0xFF), bus = [],
      chip_jedec = \<lparr>manuf_id = 0xEF, mem_type = 0x40, capacity_id = 0x10\<rparr>,
      sr1_feed = (\<lambda>k. if k = 2 then 1 else 0), sr2_val = 0,
      clock_feed = (\<lambda>k. 3000 * of_nat k), malloc_feed = (\<lambda>k. True),
      card_ok = True, mounted = False, sd_files = (\<lambda>p. None), sd_dir = None\<rparr>"

text \<open>
  \<open>flash_only w w'\<close>: between \<open>w\<close> and \<open>w'\<close> only the flash side has moved: frames
  were added to the bus, the array may have changed and the status and clock feeds have
  advanced. The card, the allocator and the chip's identity are as they were.
\<close>

definition flash_only :: "world \<Rightarrow> world \<Rightarrow> bool" where
  "flash_only w w' \<longleftrightarrow>
     (\<exists>fs k j. w' = w\<lparr>nor := nor w', bus := bus w @ fs,
                       sr1_feed := (\<lambda>i. sr1_feed w (i + k)),
                       clock_feed := (\<lambda>i. clock_feed w (i + j))\<rparr>)"

text \<open>
  \<open>card_world path img\<close>: the idle world with one file on the card. \<open>zero_header\<close> is
  a header with the right magic tag and \<open>image_size = 0\<close>; \<open>corrupt_image\<close> a complete
  image file of one payload byte whose stored checksums are both 0, which is not the
  checksum of that byte. \<open>unstamped_dir\<close> lists two images without FAT timestamps, the
  newer one first.
\<close>

definition card_world :: "string \<Rightarrow> u8 list \<Rightarrow> world" where
  "card_world path img = idle_world\<lparr>sd_files := (\<lambda>p. if p = path then Some img else None)\<rparr>"

definition zero_header :: flashimg_hdr_t where
  "zero_header =
     \<lparr>magic = FIMG_MAGIC, jedec = [0xEF, 0x40, 0x10], reserved = 0, flash_size = 4096,
      chunk_size = 4096, image_size = 0, crc32_all = 0\<rparr>"

definition corrupt_image :: "u8 list" where
  "corrupt_image = hdr_bytes (zero_header\<lparr>image_size := 1\<rparr>) @ [0x5A] @ le32_bytes 0"

definition unstamped_dir :: "FILINFO list" where
  "unstamped_dir =
     [\<lparr>fname = ''t0000002000_ef4018.fimg'', fdate = 0, ftime = 0\<rparr>,
      \<lparr>fname = ''t0000001000_ef4018.fimg'', fdate = 0, ftime = 0\<rparr>]"

text \<open>
  The page-exact reference splitter, in the words of the specification: compute
  \<open>room = pageSize - (address mod pageSize)\<close>, write \<open>min(remaining, room)\<close> bytes per
  programPage call, advance the address. Its result is the list of calls, each an address
  with its data.
\<close>

function page_exact_split :: "nat \<Rightarrow> u8 list \<Rightarrow> (nat \<times> u8 list) list" where
  "page_exact_split address xs =
     (if xs = [] then []
      else let room = 256 - address mod 256;
               len = min (length xs) room
           in (address, take len xs) # page_exact_split (address + len) (drop len xs))"
  by pat_completeness auto
termination
  by (relation "measure (\<lambda>(address, xs). length xs)") (auto simp: min_def)

declare page_exact_split.simps [simp del]

text \<open>
  \<open>pp_calls\<close> reads the program commands off the bus, each with the address the chip
  decodes and its data; \<open>apply_spans\<close> is what a list of programPage calls does to the
  array, the chip seeing the low 24 bits of each address. \<open>never_busy\<close> says the chip
  answers ready to every status read.
\<close>

definition pp_calls :: "frame list \<Rightarrow> (nat \<times> u8 list) list" where
  "pp_calls fs =
     concat (map (\<lambda>f. case mosi f of
                         c # a2 # a1 # a0 # d \<Rightarrow>
                           if c = CMD_PP then [(bus_addr a2 a1 a0, d)] else []
                       | _ \<Rightarrow> []) fs)"

definition apply_spans :: "(nat \<times> u8 list) list \<Rightarrow> (nat \<Rightarrow> u8) \<Rightarrow> nat \<Rightarrow> u8" where
  "apply_spans spans m = fold (\<lambda>(a, d). nor_program (a mod 2 ^ 24) d) spans m"

definition never_busy :: "world \<Rightarrow> bool" where
  "never_busy w \<longleftrightarrow> (\<forall>i. sr1_feed w i AND 1 = 0)"

text \<open>
  Notions used to follow the array through restore. \<open>nor_write a xs m\<close> is the array
  \<open>m\<close> after the bytes \<open>xs\<close> have been programmed at the consecutive addresses from
  \<open>a\<close>: a cell keeps the bits that are set both in it and in the byte written.
\<close>

definition nor_write :: "nat \<Rightarrow> u8 list \<Rightarrow> (nat \<Rightarrow> u8) \<Rightarrow> nat \<Rightarrow> u8" where
  "nor_write a xs m = (\<lambda>x. if a \<le> x \<and> x < a + length xs then m x AND xs ! (x - a) else m x)"

text \<open>
  \<open>erased lo hi m\<close> is \<open>m\<close> after every address from \<open>lo\<close> up to, not including,
  \<open>hi\<close> has been erased; the chip sees the low 24 bits of an address.
\<close>

definition erased :: "nat \<Rightarrow> nat \<Rightarrow> (nat \<Rightarrow> u8) \<Rightarrow> nat \<Rightarrow> u8" where
  "erased lo hi m = (\<lambda>x. if \<exists>b. lo \<le> b \<and> b < hi \<and> b mod 2 ^ 24 = x then 0xFF else m x)"

text \<open>
  \<open>inv_nor orig cur S p\<close> is the array while restore programs an image of \<open>S\<close> bytes
  taken from \<open>orig\<close> onto a chip that held \<open>cur\<close>: what addresses below \<open>p\<close> reach
  holds the image already, what the other addresses below \<open>S\<close> reach is still erased,
  and the rest is as it was.
\<close>

definition inv_nor :: "(nat \<Rightarrow> u8) \<Rightarrow> (nat \<Rightarrow> u8) \<Rightarrow> nat \<Rightarrow> nat \<Rightarrow> nat \<Rightarrow> u8" where
  "inv_nor orig cur S p =
     (\<lambda>x. if \<exists>b<p. b mod 2 ^ 24 = x then orig x
          else if \<exists>b<S. b mod 2 ^ 24 = x then 0xFF else cur x)"

text \<open>
  The layout of an image file: the 28 header bytes, the payload, and the four bytes of the
  trailing checksum.
\<close>

definition image_file :: "flashimg_hdr_t \<Rightarrow> u8 list \<Rightarrow> u32 \<Rightarrow> u8 list" where
  "image_file h payload trailer = hdr_bytes h @ payload @ le32_bytes trailer"

text \<open>
  The header that \<open>backup_flash_to_sd\<close> leaves in the file: the one it writes first,
  with the checksum of the chip's content patched in at the end.
\<close>

definition backup_header :: "world \<Rightarrow> flashimg_hdr_t" where
  "backup_header w =
     \<lparr>magic = FIMG_MAGIC,
      jedec = [manuf_id (chip_jedec w), mem_type (chip_jedec w), capacity_id (chip_jedec w)],
      reserved = 0,
      flash_size = backup_flash_sz (chip_jedec w), chunk_size = CHUNK_BYTES,
      image_size = backup_flash_sz (chip_jedec w),
      crc32_all = crc32_update 0 (nor_read (nor w) 0 (unat (backup_flash_sz (chip_jedec w))))\<rparr>"

text \<open>
  \<open>pattern_world\<close>: the idle world with a chip that holds, at every address, the low
  byte of that address.
\<close>

definition pattern_world :: world where
  "pattern_world = idle_world\<lparr>nor := (\<lambda>a. of_nat a)\<rparr>"

section \<open>Checksum properties\<close>

lemma crc32_bytes_append:
  "crc32_bytes c (xs @ ys) = crc32_bytes (crc32_bytes c xs) ys"
  by (induction xs arbitrary: c) simp_all

lemma crc32_update_append:
  "crc32_update (crc32_update c xs) ys = crc32_update c (xs @ ys)"
  by (simp add: crc32_update_def crc32_bytes_append)

lemma crc32_update_Nil: "crc32_update c [] = c"
  by (simp add: crc32_update_def)

text \<open>
  C8. The checksum of the empty input, from accumulator 0, is 0; the checksum of the nine
  ASCII bytes "123456789" is 0xCBF43926.
\<close>

theorem crc32_reference_vectors:
  "crc32_update 0 [] = 0 \<and> crc32_update 0 (ascii ''123456789'') = 0xCBF43926"
proof
  show "crc32_update 0 [] = 0"
    by (rule crc32_update_Nil)
  show "crc32_update 0 (ascii ''123456789'') = 0xCBF43926"
    by code_simp
qed

text \<open>
  C3. Feeding a byte sequence to \<open>crc32_update\<close> chunk by chunk, whatever the chunk
  boundaries, gives the checksum of one call over the concatenation; in particular from
  accumulator 0.
\<close>

theorem crc32_chunking:
  "fold (\<lambda>chunk c. crc32_update c chunk) chunks c = crc32_update c (concat chunks)"
proof (induction chunks arbitrary: c)
  case Nil
  show ?case by (simp add: crc32_update_Nil)
next
  case (Cons chunk chunks)
  show ?case by (simp add: Cons.IH crc32_update_append)
qed

text \<open>
  C5. Inside the table range the function returns \<open>2 ^ code div 8\<close> as long as the
  shift fits 32 bits, that is up to code 0x1F. At code 0x20, which the guard admits and
  the source comment lists as mapped, the 32-bit shift loses the only set bit and the
  function returns 0, the value reserved for codes outside the table.
\<close>

lemma flash_calculate_capacity_below_0x20:
  assumes "0x10 \<le> capacity_code" "capacity_code < 0x20"
  shows "unat (flash_calculate_capacity capacity_code) = 2 ^ unat capacity_code div 8"
proof -
  have lt: "unat capacity_code < 32"
    using assms(2) by (simp add: word_less_nat_alt)
  have "unat (push_bit (unat capacity_code) (1 :: u32)) = 2 ^ unat capacity_code"
    by (subst unsigned_push_bit_eq) (simp add: take_bit_of_exp lt)
  moreover have "\<not> capacity_code < 0x10" "\<not> capacity_code > 0x20"
    using assms by (simp_all add: word_less_nat_alt word_le_nat_alt)
  ultimately show ?thesis
    by (simp add: flash_calculate_capacity_def Let_def unat_div)
qed

lemma flash_calculate_capacity_outside:
  "capacity_code < 0x10 \<or> capacity_code > 0x20 \<Longrightarrow> flash_calculate_capacity capacity_code = 0"
  by (simp add: flash_calculate_capacity_def)

theorem flash_calculate_capacity_0x20:
  "flash_calculate_capacity 0x20 = 0 \<and> (2 :: nat) ^ 0x20 div 8 = 536870912"
  by (simp add: flash_calculate_capacity_def)

section \<open>Waiting for the chip\<close>

lemma polled_0: "polled 0 0 w = w"
  by (simp add: polled_def)

lemma polled_polled: "polled k j (polled k' j' w) = polled (k' + k) (j' + j) w"
  by (simp add: polled_def replicate_add) (simp add: ac_simps)

lemma flash_read_sr1_polled: "flash_read_sr1 w = (sr1_feed w 0, polled 1 0 w)"
  by (simp add: flash_read_sr1_def polled_def SR1_FRAME_def)

lemma to_ms_since_boot_polled: "to_ms_since_boot w = (clock_feed w 0, polled 0 1 w)"
  by (simp add: to_ms_since_boot_def polled_def)

lemma wait_busy_loop_polled:
  "wait_busy_loop t0 tm w = Some y \<Longrightarrow> \<exists>k j. snd y = polled (Suc k) j w"
proof (induction rule: wait_busy_loop.raw_induct[rotated 1, consumes 1])
  case (1 loop t0 tm w y)
  show ?case
  proof (cases "sr1_feed w 0 AND 1 = 0")
    case True
    with 1(2) have "snd y = polled 1 0 w"
      by (auto simp: flash_read_sr1_polled)
    then show ?thesis by (metis One_nat_def)
  next
    case busy: False
    show ?thesis
    proof (cases "clock_feed w 0 - t0 > tm")
      case True
      with busy 1(2) have "snd y = polled 1 1 w"
        by (auto simp: flash_read_sr1_polled to_ms_since_boot_polled polled_polled polled_def)
      then show ?thesis by (metis One_nat_def)
    next
      case False
      with busy 1(2) have "loop t0 tm (polled 1 1 w) = Some y"
        by (auto simp: flash_read_sr1_polled to_ms_since_boot_polled polled_polled polled_def)
      from 1(1)[OF this] obtain k j where "snd y = polled (Suc k) j (polled 1 1 w)"
        by blast
      then have "snd y = polled (Suc (Suc k)) (Suc j) w"
        by (simp add: polled_polled)
      then show ?thesis by blast
    qed
  qed
qed

lemma flash_wait_busy_timeout_polled:
  assumes "flash_wait_busy_timeout tm w = Some (ok, w')"
  shows "\<exists>k j. w' = polled (Suc k) (Suc j) w"
proof -
  from assms have "wait_busy_loop (clock_feed w 0) tm (polled 0 1 w) = Some (ok, w')"
    by (simp add: flash_wait_busy_timeout_def to_ms_since_boot_polled)
  from wait_busy_loop_polled[OF this] obtain k j where "w' = polled (Suc k) j (polled 0 1 w)"
    by auto
  then show ?thesis by (auto simp: polled_polled)
qed

lemma bus_commands_append [simp]:
  "bus_commands (fs @ gs) = bus_commands fs @ bus_commands gs"
  by (simp add: bus_commands_def)

lemma bus_commands_replicate_SR1 [simp]: "bus_commands (replicate k SR1_FRAME) = []"
  by (induction k) (simp_all add: bus_commands_def SR1_FRAME_def)

lemma bus_polled [simp]: "bus_commands (bus (polled k j w)) = bus_commands (bus w)"
  by (simp add: polled_def)

lemma bus_spi_write_frame [simp]:
  "bus_commands (bus (spi_write_frame (c # tx) w)) =
     bus_commands (bus w) @ (if c \<noteq> CMD_RDSR1 \<and> c \<noteq> CMD_RDSR2 then [c] else [])"
  by (simp add: spi_write_frame_def bus_commands_def)

lemma bus_flash_read_sr1 [simp]: "bus_commands (bus (snd (flash_read_sr1 w))) = bus_commands (bus w)"
  by (simp add: flash_read_sr1_def bus_commands_def)

lemma bus_flash_read_sr2 [simp]: "bus_commands (bus (snd (flash_read_sr2 w))) = bus_commands (bus w)"
  by (simp add: flash_read_sr2_def bus_commands_def)

lemma bus_flash_wait_busy_timeout:
  "flash_wait_busy_timeout tm w = Some (ok, w') \<Longrightarrow> bus_commands (bus w') = bus_commands (bus w)"
  by (drule flash_wait_busy_timeout_polled) auto

lemma bus_flash_global_unprotect:
  assumes "flash_global_unprotect w = Some w'"
  shows "bus_commands (bus w') = bus_commands (bus w) @ [CMD_ULBPR, CMD_WREN, CMD_WRSR]"
proof -
  let ?w1 = "spi_write_frame [CMD_WRSR, 0x00, 0x00] (flash_wren (sleep_ms 1 (flash_cmd1 CMD_ULBPR w)))"
  from assms obtain ok w2 where w: "flash_wait_busy_timeout 200 ?w1 = Some (ok, w2)"
    and w': "w' = snd (flash_read_sr2 (snd (flash_read_sr1 w2)))"
    by (auto simp: flash_global_unprotect_def split: option.splits)
  have "bus_commands (bus w2) = bus_commands (bus ?w1)"
    by (rule bus_flash_wait_busy_timeout[OF w])
  then show ?thesis
    by (simp add: w' flash_wren_def flash_cmd1_def sleep_ms_def)
qed

lemma bus_erase_issue [simp]:
  "bus_commands (bus (erase_issue addr w)) = bus_commands (bus w) @ [CMD_WREN, CMD_SE_4K]"
  by (simp add: erase_issue_def addr_hdr_def flash_wren_def flash_cmd1_def)

lemma bus_erase_diag [simp]: "bus_commands (bus (erase_diag w)) = bus_commands (bus w)"
  by (simp add: erase_diag_def)

lemma bus_recovery [simp]:
  "bus_commands (bus (flash_soft_reset (flash_resume w))) =
     bus_commands (bus w) @ [CMD_RESUME, CMD_RSTEN, CMD_RST]"
  by (simp add: flash_soft_reset_def flash_resume_def flash_cmd1_def sleep_ms_def)

lemma bus_of_polled: "bus (polled k j w) = bus w @ replicate k SR1_FRAME"
  by (simp add: polled_def)

lemma bus_of_flash_wait_busy_timeout:
  assumes "flash_wait_busy_timeout tm w = Some (ok, w')"
  shows "\<exists>k. bus w' = bus w @ replicate (Suc k) SR1_FRAME"
proof -
  from flash_wait_busy_timeout_polled[OF assms] obtain k j where "w' = polled (Suc k) (Suc j) w"
    by blast
  then have "bus w' = bus w @ replicate (Suc k) SR1_FRAME"
    by (simp only: bus_of_polled)
  then show ?thesis ..
qed

lemma bus_of_erase_diag: "bus (erase_diag w) = bus w @ [SR1_FRAME, SR2_FRAME]"
  by (simp add: erase_diag_def flash_read_sr1_def flash_read_sr2_def SR1_FRAME_def SR2_FRAME_def)

lemma bus_of_erase_issue:
  "bus (erase_issue addr w) =
     bus w @ [Frame [CMD_WREN] 0,
              Frame [CMD_SE_4K, ucast (drop_bit 16 addr), ucast (drop_bit 8 addr), ucast addr] 0]"
  by (simp add: erase_issue_def flash_wren_def flash_cmd1_def spi_write_frame_def addr_hdr_def)

lemma bus_of_recovery:
  "bus (flash_soft_reset (flash_resume w)) =
     bus w @ [Frame [CMD_RESUME] 0, Frame [CMD_RSTEN] 0, Frame [CMD_RST] 0]"
  by (simp add: flash_soft_reset_def flash_resume_def flash_cmd1_def sleep_ms_def
        spi_write_frame_def)

lemma bus_of_flash_global_unprotect:
  assumes "flash_global_unprotect w = Some w'"
  shows "\<exists>k. bus w' =
           bus w @ [Frame [CMD_ULBPR] 0, Frame [CMD_WREN] 0, Frame [CMD_WRSR, 0x00, 0x00] 0]
             @ replicate (Suc k) SR1_FRAME @ [SR1_FRAME, SR2_FRAME]"
proof -
  let ?w1 = "spi_write_frame [CMD_WRSR, 0x00, 0x00] (flash_wren (sleep_ms 1 (flash_cmd1 CMD_ULBPR w)))"
  from assms obtain ok w2 where w: "flash_wait_busy_timeout 200 ?w1 = Some (ok, w2)"
    and w': "w' = erase_diag w2"
    by (auto simp: flash_global_unprotect_def erase_diag_def split: option.splits)
  from bus_of_flash_wait_busy_timeout[OF w] obtain k where
    "bus w2 = bus ?w1 @ replicate (Suc k) SR1_FRAME"
    by blast
  moreover have "bus ?w1 =
      bus w @ [Frame [CMD_ULBPR] 0, Frame [CMD_WREN] 0, Frame [CMD_WRSR, 0x00, 0x00] 0]"
    by (simp add: flash_wren_def flash_cmd1_def sleep_ms_def spi_write_frame_def)
  ultimately have "bus w' =
      bus w @ [Frame [CMD_ULBPR] 0, Frame [CMD_WREN] 0, Frame [CMD_WRSR, 0x00, 0x00] 0]
        @ replicate (Suc k) SR1_FRAME @ [SR1_FRAME, SR2_FRAME]"
    by (simp only: w' bus_of_erase_diag append_assoc)
  then show ?thesis ..
qed

text \<open>
  C7. When the busy-wait after the first erase command times out and the one after the
  recovery returns, \<open>flash_dut_erase_4k\<close> returns what the second wait returned: success
  when it succeeded, failure when it timed out as well. The frames it puts on the bus are,
  in this order and with nothing else between them: the global unprotect (unlock,
  write-enable, write-status, its status polls and its two status reads); write-enable and
  the erase command with the three address bytes of the sector; the status polls of the
  first wait; the two diagnostic reads of status registers 1 and 2; resume, reset-enable,
  reset; the global unprotect again; write-enable and the same erase command again; the
  status polls of the second wait; and, only when the second wait timed out too, two more
  diagnostic status reads. So there is exactly one recovery cycle and no third erase
  command. Every wait polls the status register at least once; how often is left to the
  chip and the clock.
\<close>

theorem flash_dut_erase_4k_recovery:
  assumes "flash_global_unprotect w = Some w1"
    and "flash_wait_busy_timeout 2000 (erase_issue addr w1) = Some (False, w2)"
    and "flash_global_unprotect (flash_soft_reset (flash_resume (erase_diag w2))) = Some w3"
    and "flash_wait_busy_timeout 3000 (erase_issue addr w3) = Some (ok, w4)"
  shows "\<exists>w' k1 k2 k3 k4.
           flash_dut_erase_4k addr w = Some (ok, w') \<and>
           bus w' = bus w
             @ [Frame [CMD_ULBPR] 0, Frame [CMD_WREN] 0, Frame [CMD_WRSR, 0x00, 0x00] 0]
             @ replicate (Suc k1) SR1_FRAME @ [SR1_FRAME, SR2_FRAME]
             @ [Frame [CMD_WREN] 0,
                Frame [CMD_SE_4K, ucast (drop_bit 16 addr), ucast (drop_bit 8 addr), ucast addr] 0]
             @ replicate (Suc k2) SR1_FRAME
             @ [SR1_FRAME, SR2_FRAME]
             @ [Frame [CMD_RESUME] 0, Frame [CMD_RSTEN] 0, Frame [CMD_RST] 0]
             @ [Frame [CMD_ULBPR] 0, Frame [CMD_WREN] 0, Frame [CMD_WRSR, 0x00, 0x00] 0]
             @ replicate (Suc k3) SR1_FRAME @ [SR1_FRAME, SR2_FRAME]
             @ [Frame [CMD_WREN] 0,
                Frame [CMD_SE_4K, ucast (drop_bit 16 addr), ucast (drop_bit 8 addr), ucast addr] 0]
             @ replicate (Suc k4) SR1_FRAME
             @ (if ok then [] else [SR1_FRAME, SR2_FRAME])"
proof -
  let ?w' = "if ok then w4 else erase_diag w4"
  have res: "flash_dut_erase_4k addr w = Some (ok, ?w')"
    using assms by (simp add: flash_dut_erase_4k_def)
  from bus_of_flash_global_unprotect[OF assms(1)] obtain k1 where
    b1: "bus w1 = bus w @ [Frame [CMD_ULBPR] 0, Frame [CMD_WREN] 0, Frame [CMD_WRSR, 0x00, 0x00] 0]
             @ replicate (Suc k1) SR1_FRAME @ [SR1_FRAME, SR2_FRAME]"
    by blast
  from bus_of_flash_wait_busy_timeout[OF assms(2)] obtain k2 where
    b2: "bus w2 = bus (erase_issue addr w1) @ replicate (Suc k2) SR1_FRAME"
    by blast
  from bus_of_flash_global_unprotect[OF assms(3)] obtain k3 where
    b3: "bus w3 = bus (flash_soft_reset (flash_resume (erase_diag w2)))
             @ [Frame [CMD_ULBPR] 0, Frame [CMD_WREN] 0, Frame [CMD_WRSR, 0x00, 0x00] 0]
             @ replicate (Suc k3) SR1_FRAME @ [SR1_FRAME, SR2_FRAME]"
    by blast
  from bus_of_flash_wait_busy_timeout[OF assms(4)] obtain k4 where
    b4: "bus w4 = bus (erase_issue addr w3) @ replicate (Suc k4) SR1_FRAME"
    by blast
  have b5: "bus ?w' = bus w4 @ (if ok then [] else [SR1_FRAME, SR2_FRAME])"
    by (simp add: bus_of_erase_diag)
  have "bus ?w' = bus w
             @ [Frame [CMD_ULBPR] 0, Frame [CMD_WREN] 0, Frame [CMD_WRSR, 0x00, 0x00] 0]
             @ replicate (Suc k1) SR1_FRAME @ [SR1_FRAME, SR2_FRAME]
             @ [Frame [CMD_WREN] 0,
                Frame [CMD_SE_4K, ucast (drop_bit 16 addr), ucast (drop_bit 8 addr), ucast addr] 0]
             @ replicate (Suc k2) SR1_FRAME
             @ [SR1_FRAME, SR2_FRAME]
             @ [Frame [CMD_RESUME] 0, Frame [CMD_RSTEN] 0, Frame [CMD_RST] 0]
             @ [Frame [CMD_ULBPR] 0, Frame [CMD_WREN] 0, Frame [CMD_WRSR, 0x00, 0x00] 0]
             @ replicate (Suc k3) SR1_FRAME @ [SR1_FRAME, SR2_FRAME]
             @ [Frame [CMD_WREN] 0,
                Frame [CMD_SE_4K, ucast (drop_bit 16 addr), ucast (drop_bit 8 addr), ucast addr] 0]
             @ replicate (Suc k4) SR1_FRAME
             @ (if ok then [] else [SR1_FRAME, SR2_FRAME])"
    by (simp only: b5 b4 bus_of_erase_issue b3 bus_of_recovery bus_of_erase_diag b2 b1 append_assoc)
  with res show ?thesis by blast
qed

text \<open>
  C10. With a null pointer, no data or more than 256 bytes, \<open>flash_dut_program_page\<close>
  returns failure at once and the world is unchanged: no frame on the bus, the array as it
  was. Otherwise its result is that of the busy-wait after the write-enable and the program
  frame. So a failure is returned exactly when the precondition is violated or that wait
  timed out.
\<close>

theorem flash_dut_program_page_failure:
  "(\<not> page_data_ok data \<longrightarrow> flash_dut_program_page addr data w = Some (False, w)) \<and>
   (page_data_ok data \<longrightarrow>
      flash_dut_program_page addr data w =
        flash_wait_busy_timeout 10000 (spi_write_frame (addr_hdr CMD_PP addr @ the data) (flash_wren w))) \<and>
   (flash_dut_program_page addr data w = Some (ok, w') \<longrightarrow>
      (\<not> ok \<longleftrightarrow> \<not> page_data_ok data \<or>
         flash_wait_busy_timeout 10000 (spi_write_frame (addr_hdr CMD_PP addr @ the data) (flash_wren w))
           = Some (False, w')))"
  by (cases data) (auto simp: flash_dut_program_page_def page_data_ok_def)

lemma sr1_feed_polled [simp]: "sr1_feed (polled k j w) = (\<lambda>i. sr1_feed w (i + k))"
  by (simp add: polled_def)

lemma clock_feed_polled [simp]: "clock_feed (polled k j w) = (\<lambda>i. clock_feed w (i + j))"
  by (simp add: polled_def)

lemma wait_busy_loop_ready:
  "sr1_feed w 0 AND 1 = 0 \<Longrightarrow> wait_busy_loop t0 tm w = Some (True, polled 1 0 w)"
  by (subst wait_busy_loop.simps) (simp add: flash_read_sr1_polled)

lemma wait_busy_loop_expired:
  "sr1_feed w 0 AND 1 \<noteq> 0 \<Longrightarrow> clock_feed w 0 - t0 > tm \<Longrightarrow>
     wait_busy_loop t0 tm w = Some (False, polled 1 1 w)"
  by (subst wait_busy_loop.simps)
     (simp add: flash_read_sr1_polled to_ms_since_boot_polled polled_polled)

lemma flash_wait_busy_timeout_ready:
  "sr1_feed w 0 AND 1 = 0 \<Longrightarrow> flash_wait_busy_timeout tm w = Some (True, polled 1 1 w)"
  by (simp add: flash_wait_busy_timeout_def to_ms_since_boot_polled wait_busy_loop_ready
        polled_polled)

lemma flash_wait_busy_timeout_expired:
  "sr1_feed w 0 AND 1 \<noteq> 0 \<Longrightarrow> clock_feed w 1 - clock_feed w 0 > tm \<Longrightarrow>
     flash_wait_busy_timeout tm w = Some (False, polled 1 2 w)"
  by (simp add: flash_wait_busy_timeout_def to_ms_since_boot_polled wait_busy_loop_expired
        polled_polled numeral_2_eq_2)

lemmas frame_defs = unprotected_def spi_write_frame_def flash_cmd1_def flash_wren_def sleep_ms_def
  flash_read_sr1_def flash_read_sr2_def erase_issue_def erase_diag_def flash_soft_reset_def
  flash_resume_def polled_def

lemma flash_global_unprotect_ready:
  "sr1_feed w 0 AND 1 = 0 \<Longrightarrow> flash_global_unprotect w = Some (unprotected w)"
  by (simp add: flash_global_unprotect_def flash_wait_busy_timeout_ready unprotected_def
        spi_write_frame_def flash_cmd1_def flash_wren_def sleep_ms_def)

theorem flash_dut_erase_4k_recovery_witness:
  "\<exists>w' k1 k2 k3 k4.
     flash_dut_erase_4k 0x1000 busy_world = Some (True, w') \<and>
     bus w' =
       [Frame [CMD_ULBPR] 0, Frame [CMD_WREN] 0, Frame [CMD_WRSR, 0x00, 0x00] 0]
       @ replicate (Suc k1) SR1_FRAME @ [SR1_FRAME, SR2_FRAME]
       @ [Frame [CMD_WREN] 0, Frame [CMD_SE_4K, 0x00, 0x10, 0x00] 0]
       @ replicate (Suc k2) SR1_FRAME
       @ [SR1_FRAME, SR2_FRAME]
       @ [Frame [CMD_RESUME] 0, Frame [CMD_RSTEN] 0, Frame [CMD_RST] 0]
       @ [Frame [CMD_ULBPR] 0, Frame [CMD_WREN] 0, Frame [CMD_WRSR, 0x00, 0x00] 0]
       @ replicate (Suc k3) SR1_FRAME @ [SR1_FRAME, SR2_FRAME]
       @ [Frame [CMD_WREN] 0, Frame [CMD_SE_4K, 0x00, 0x10, 0x00] 0]
       @ replicate (Suc k4) SR1_FRAME"
proof -
  define w1 where "w1 = unprotected busy_world"
  define w2 where "w2 = polled 1 2 (erase_issue 0x1000 w1)"
  define v where "v = flash_soft_reset (flash_resume (erase_diag w2))"
  define w3 where "w3 = unprotected v"
  define w4 where "w4 = polled 1 1 (erase_issue 0x1000 w3)"
  have f1: "sr1_feed w1 = (\<lambda>k. if k = 0 then 1 else 0)" "clock_feed w1 = (\<lambda>k. 3000 * of_nat (Suc k))"
    by (auto simp: w1_def busy_world_def frame_defs)
  have f2: "sr1_feed w2 = (\<lambda>k. 0)"
    by (simp add: w2_def f1 frame_defs)
  have f3: "sr1_feed w3 = (\<lambda>k. 0)"
    by (simp add: w3_def v_def f2 frame_defs)
  have u1: "flash_global_unprotect busy_world = Some w1"
    unfolding w1_def by (rule flash_global_unprotect_ready) (simp add: busy_world_def)
  have t1: "flash_wait_busy_timeout 2000 (erase_issue 0x1000 w1) = Some (False, w2)"
    unfolding w2_def by (rule flash_wait_busy_timeout_expired) (simp_all add: f1 frame_defs)
  have u2: "flash_global_unprotect (flash_soft_reset (flash_resume (erase_diag w2))) = Some w3"
    unfolding w3_def v_def by (rule flash_global_unprotect_ready) (simp add: f2 frame_defs)
  have t2: "flash_wait_busy_timeout 3000 (erase_issue 0x1000 w3) = Some (True, w4)"
    unfolding w4_def by (rule flash_wait_busy_timeout_ready) (simp add: f3 frame_defs)
  have hdr: "[ucast (drop_bit 16 (0x1000 :: u32)), ucast (drop_bit 8 (0x1000 :: u32)),
      ucast (0x1000 :: u32)] = [0x00, 0x10, 0x00 :: u8]"
    by (simp add: drop_bit_eq_div)
  have "bus busy_world = []"
    by (simp add: busy_world_def)
  with flash_dut_erase_4k_recovery[OF u1 t1 u2 t2] show ?thesis
    unfolding hdr by simp
qed

theorem flash_dut_program_page_failure_witness:
  "\<not> page_data_ok (Some []) \<and>
   flash_dut_program_page 0 (Some []) idle_world = Some (False, idle_world) \<and>
   page_data_ok (Some [0xA5]) \<and>
   flash_dut_program_page 0 (Some [0xA5]) idle_world =
     flash_wait_busy_timeout 10000
       (spi_write_frame (addr_hdr CMD_PP 0 @ [0xA5]) (flash_wren idle_world))"
  using flash_dut_program_page_failure[of "Some []" 0 idle_world]
    flash_dut_program_page_failure[of "Some [0xA5]" 0 idle_world]
  by (simp add: page_data_ok_def)

lemma flash_onlyI:
  "w' = w\<lparr>nor := m, bus := bus w @ fs, sr1_feed := (\<lambda>i. sr1_feed w (i + k)),
          clock_feed := (\<lambda>i. clock_feed w (i + j))\<rparr> \<Longrightarrow> flash_only w w'"
  unfolding flash_only_def by (intro exI[of _ fs] exI[of _ k] exI[of _ j]) simp

lemma flash_only_refl [simp]: "flash_only w w"
  by (rule flash_onlyI[where m = "nor w" and fs = "[]" and k = 0 and j = 0]) simp

lemma flash_only_trans:
  assumes "flash_only w w1" "flash_only w1 w2"
  shows "flash_only w w2"
proof -
  from assms(1) obtain fs k j where 1: "w1 = w\<lparr>nor := nor w1, bus := bus w @ fs,
      sr1_feed := (\<lambda>i. sr1_feed w (i + k)), clock_feed := (\<lambda>i. clock_feed w (i + j))\<rparr>"
    unfolding flash_only_def by blast
  from assms(2) obtain fs' k' j' where 2: "w2 = w1\<lparr>nor := nor w2, bus := bus w1 @ fs',
      sr1_feed := (\<lambda>i. sr1_feed w1 (i + k')), clock_feed := (\<lambda>i. clock_feed w1 (i + j'))\<rparr>"
    unfolding flash_only_def by blast
  have "w2 = w\<lparr>nor := nor w2, bus := bus w @ (fs @ fs'),
      sr1_feed := (\<lambda>i. sr1_feed w (i + (k' + k))), clock_feed := (\<lambda>i. clock_feed w (i + (j' + j)))\<rparr>"
    by (subst 2, subst (1 2 3 4) 1) (simp add: add.assoc)
  then show ?thesis by (rule flash_onlyI)
qed

lemma flash_only_fields:
  assumes "flash_only w w'"
  shows "chip_jedec w' = chip_jedec w" "sr2_val w' = sr2_val w" "malloc_feed w' = malloc_feed w"
    "card_ok w' = card_ok w" "mounted w' = mounted w" "sd_files w' = sd_files w"
    "sd_dir w' = sd_dir w"
proof -
  from assms obtain fs k j where 1: "w' = w\<lparr>nor := nor w', bus := bus w @ fs,
      sr1_feed := (\<lambda>i. sr1_feed w (i + k)), clock_feed := (\<lambda>i. clock_feed w (i + j))\<rparr>"
    unfolding flash_only_def by blast
  show "chip_jedec w' = chip_jedec w" by (subst 1) simp
  show "sr2_val w' = sr2_val w" by (subst 1) simp
  show "malloc_feed w' = malloc_feed w" by (subst 1) simp
  show "card_ok w' = card_ok w" by (subst 1) simp
  show "mounted w' = mounted w" by (subst 1) simp
  show "sd_files w' = sd_files w" by (subst 1) simp
  show "sd_dir w' = sd_dir w" by (subst 1) simp
qed

lemma flash_only_polled [simp]: "flash_only w (polled k j w)"
  unfolding polled_def by (rule flash_onlyI[where m = "nor w"]) simp

lemma flash_only_spi_write_frame [simp]: "flash_only w (spi_write_frame tx w)"
  unfolding spi_write_frame_def
  by (rule flash_onlyI[where m = "chip_write tx (nor w)" and k = 0 and j = 0]) simp

lemma flash_only_flash_read_sr2 [simp]: "flash_only w (snd (flash_read_sr2 w))"
  unfolding flash_read_sr2_def
  by (rule flash_onlyI[where m = "nor w" and k = 0 and j = 0]) simp

lemma flash_only_flash_read_sr1 [simp]: "flash_only w (snd (flash_read_sr1 w))"
  by (simp add: flash_read_sr1_polled)

lemma flash_only_spi_read_frame [simp]: "flash_only w (snd (spi_read_frame tx len w))"
  unfolding spi_read_frame_def
  by (rule flash_onlyI[where m = "nor w" and k = 0 and j = 0]) simp

lemma flash_only_steps:
  "flash_only w w1 \<Longrightarrow> flash_only w (polled k j w1)"
  "flash_only w w1 \<Longrightarrow> flash_only w (spi_write_frame tx w1)"
  "flash_only w w1 \<Longrightarrow> flash_only w (snd (flash_read_sr1 w1))"
  "flash_only w w1 \<Longrightarrow> flash_only w (snd (flash_read_sr2 w1))"
  "flash_only w w1 \<Longrightarrow> flash_only w (snd (spi_read_frame tx len w1))"
  by (erule flash_only_trans, simp)+

lemma nor_polled [simp]: "nor (polled k j w) = nor w"
  by (simp add: polled_def)

lemma nor_flash_read_sr1 [simp]: "nor (snd (flash_read_sr1 w)) = nor w"
  by (simp add: flash_read_sr1_def)

lemma nor_flash_read_sr2 [simp]: "nor (snd (flash_read_sr2 w)) = nor w"
  by (simp add: flash_read_sr2_def)

lemma nor_spi_write_frame [simp]: "nor (spi_write_frame tx w) = chip_write tx (nor w)"
  by (simp add: spi_write_frame_def)

lemma flash_global_unprotect_only:
  assumes "flash_global_unprotect w = Some w'"
  shows "flash_only w w'" and "nor w' = nor w"
proof -
  let ?w1 = "spi_write_frame [CMD_WRSR, 0x00, 0x00] (flash_wren (sleep_ms 1 (flash_cmd1 CMD_ULBPR w)))"
  from assms obtain ok w2 where w: "flash_wait_busy_timeout 200 ?w1 = Some (ok, w2)"
    and w': "w' = snd (flash_read_sr2 (snd (flash_read_sr1 w2)))"
    by (auto simp: flash_global_unprotect_def split: option.splits)
  from flash_wait_busy_timeout_polled[OF w] obtain k j where w2: "w2 = polled (Suc k) (Suc j) ?w1"
    by blast
  have "flash_only w ?w1"
    unfolding flash_wren_def flash_cmd1_def sleep_ms_def
    by (intro flash_only_steps flash_only_refl)
  moreover have "flash_only ?w1 w'"
    unfolding w' w2
    by (intro flash_only_steps flash_only_refl)
  ultimately show "flash_only w w'"
    by (rule flash_only_trans)
  show "nor w' = nor w"
    by (simp add: w' w2 flash_wren_def flash_cmd1_def sleep_ms_def)
qed

lemma flash_soft_reset_only: "flash_only w (flash_soft_reset w)" "nor (flash_soft_reset w) = nor w"
  unfolding flash_soft_reset_def flash_cmd1_def sleep_ms_def
  by (intro flash_only_steps flash_only_refl) simp

lemma bus_flash_soft_reset [simp]:
  "bus_commands (bus (flash_soft_reset w)) = bus_commands (bus w) @ [CMD_RSTEN, CMD_RST]"
  by (simp add: flash_soft_reset_def flash_cmd1_def sleep_ms_def)

text \<open>What \<open>flash_dut_init\<close> does whenever it returns.\<close>

lemma flash_dut_init_only:
  assumes "flash_dut_init w = Some (ok, w')"
  shows "ok" and "flash_only w w'" and "nor w' = nor w"
    and "bus_commands (bus w') =
           bus_commands (bus w) @ [CMD_RSTEN, CMD_RST, CMD_ULBPR, CMD_WREN, CMD_WRSR]"
proof -
  from assms have u: "flash_global_unprotect (flash_soft_reset w) = Some w'" and ok: ok
    by (auto simp: flash_dut_init_def split: option.splits)
  show ok by (rule ok)
  show "flash_only w w'"
    by (rule flash_only_trans[OF flash_soft_reset_only(1) flash_global_unprotect_only(1)[OF u]])
  show "nor w' = nor w"
    by (simp add: flash_global_unprotect_only(2)[OF u] flash_soft_reset_only(2))
  show "bus_commands (bus w') =
           bus_commands (bus w) @ [CMD_RSTEN, CMD_RST, CMD_ULBPR, CMD_WREN, CMD_WRSR]"
    by (simp add: bus_flash_global_unprotect[OF u])
qed

lemma fs_mount_once_True:
  "fs_mount_once w = (True, w1) \<Longrightarrow> w1 = w\<lparr>mounted := True\<rparr>"
  by (auto simp: fs_mount_once_def split: if_splits)

lemma restore_target_cong:
  "sd_dir w' = sd_dir w \<Longrightarrow> restore_target name w' = restore_target name w"
  by (simp add: restore_target_def choose_latest_image_def split: option.splits)

lemma f_read_cong:
  "sd_files w' = sd_files w \<Longrightarrow> f_read w' fp n = f_read w fp n"
  by (simp add: f_read_def)

lemma f_read_Some:
  "sd_files w (fpath fp) = Some content \<Longrightarrow>
     f_read w fp n = ((FR_OK, take n (drop (fptr fp) content)),
                      fp\<lparr>fptr := fptr fp + min (length content - fptr fp) n\<rparr>)"
  by (simp add: f_read_def Let_def)

lemma f_read_full:
  "sd_files w (fpath fp) = Some content \<Longrightarrow> fptr fp + n \<le> length content \<Longrightarrow>
     f_read w fp n = ((FR_OK, take n (drop (fptr fp) content)), fp\<lparr>fptr := fptr fp + n\<rparr>)"
  by (simp add: f_read_Some min_def)

lemma restore_crc_loop_complete:
  assumes "sd_files w (fpath fp) = Some content" and "chunk \<noteq> 0"
    and "fptr fp + unat remain \<le> length content"
  shows "restore_crc_loop w chunk fp crc remain =
           Some (Some (crc32_update crc (take (unat remain) (drop (fptr fp) content)),
                       fp\<lparr>fptr := fptr fp + unat remain\<rparr>))"
  using assms
proof (induction "unat remain" arbitrary: remain fp crc rule: less_induct)
  case less
  show ?case
  proof (cases "remain = 0")
    case True
    then show ?thesis
      by (subst restore_crc_loop.simps) (simp add: crc32_update_Nil)
  next
    case False
    define n where "n = (if chunk < remain then chunk else remain)"
    have n: "n \<noteq> 0" "n \<le> remain"
      using False \<open>chunk \<noteq> 0\<close> by (auto simp: n_def)
    then have un: "0 < unat n" "unat n \<le> unat remain"
      by (simp_all add: unat_gt_0 word_le_nat_alt)
    have sub: "unat (remain - n) = unat remain - unat n"
      using n(2) by (simp add: unat_sub)
    let ?fp1 = "fp\<lparr>fptr := fptr fp + unat n\<rparr>"
    have rd: "f_read w fp (unat n) = ((FR_OK, take (unat n) (drop (fptr fp) content)), ?fp1)"
      using less.prems(1,3) un by (simp add: f_read_Some min_def)
    have len: "length (take (unat n) (drop (fptr fp) content)) = unat n"
      using less.prems(3) un by simp
    have IH: "restore_crc_loop w chunk ?fp1 (crc32_update crc (take (unat n) (drop (fptr fp) content))) (remain - n) =
      Some (Some (crc32_update (crc32_update crc (take (unat n) (drop (fptr fp) content)))
                    (take (unat (remain - n)) (drop (fptr ?fp1) content)),
                  ?fp1\<lparr>fptr := fptr ?fp1 + unat (remain - n)\<rparr>))"
      using less.prems un by (intro less.hyps) (simp_all add: sub)
    have "take (unat n + (unat remain - unat n)) (drop (fptr fp) content) =
        take (unat n) (drop (fptr fp) content)
          @ take (unat remain - unat n) (drop (unat n) (drop (fptr fp) content))"
      by (rule take_add)
    then have cat: "take (unat n) (drop (fptr fp) content)
          @ take (unat remain - unat n) (drop (fptr fp + unat n) content)
        = take (unat remain) (drop (fptr fp) content)"
      using un(2) by (simp add: add.commute)
    have "restore_crc_loop w chunk fp crc remain =
        restore_crc_loop w chunk ?fp1 (crc32_update crc (take (unat n) (drop (fptr fp) content))) (remain - n)"
      using False len by (subst restore_crc_loop.simps) (simp add: n_def[symmetric] rd del: take_drop)
    also note IH
    finally show ?thesis
      by (simp add: sub crc32_update_append cat add.assoc un)
  qed
qed

lemma restore_prefix:
  assumes mount: "fs_mount_once w = (True, w1)"
    and init: "flash_dut_init w1 = Some (ok, w2)"
    and target: "restore_target name w = Some path"
    and img: "sd_files w path = Some img"
  shows "restore_flash_from_sd name w =
           (case restore_read_header w2 \<lparr>fpath = path, fptr = 0\<rparr> of
              Inl rc \<Rightarrow> Some (rc, w2)
            | Inr (h, fp1) \<Rightarrow>
                (case malloc (unat (chunk_size h)) w2 of
                   (buf_ok, w3) \<Rightarrow> if \<not> buf_ok then Some (- 7, w3) else restore_image h fp1 w3))"
    and "sd_files w2 = sd_files w" and "malloc_feed w2 = malloc_feed w"
    and "nor w2 = nor w"
    and "bus_commands (bus w2) =
           bus_commands (bus w) @ [CMD_RSTEN, CMD_RST, CMD_ULBPR, CMD_WREN, CMD_WRSR]"
proof -
  have w1: "w1 = w\<lparr>mounted := True\<rparr>"
    by (rule fs_mount_once_True[OF mount])
  note i = flash_dut_init_only[OF init]
  note f = flash_only_fields[OF i(2)]
  show files: "sd_files w2 = sd_files w" and "malloc_feed w2 = malloc_feed w"
    by (simp_all add: f w1)
  show "nor w2 = nor w"
    by (simp add: i(3) w1)
  show "bus_commands (bus w2) =
           bus_commands (bus w) @ [CMD_RSTEN, CMD_RST, CMD_ULBPR, CMD_WREN, CMD_WRSR]"
    by (simp add: i(4) w1)
  have "sd_dir w2 = sd_dir w"
    by (simp add: f w1)
  then have "restore_target name w2 = restore_target name w"
    by (rule restore_target_cong)
  then have t: "restore_target name w2 = Some path"
    using target by simp
  have o: "f_open_read w2 path = (FR_OK, \<lparr>fpath = path, fptr = 0\<rparr>)"
    by (simp add: f_open_read_def files img)
  show "restore_flash_from_sd name w =
           (case restore_read_header w2 \<lparr>fpath = path, fptr = 0\<rparr> of
              Inl rc \<Rightarrow> Some (rc, w2)
            | Inr (h, fp1) \<Rightarrow>
                (case malloc (unat (chunk_size h)) w2 of
                   (buf_ok, w3) \<Rightarrow> if \<not> buf_ok then Some (- 7, w3) else restore_image h fp1 w3))"
    by (simp add: restore_flash_from_sd_def mount init i(1) t o)
qed

lemma restore_read_header_eq:
  assumes "sd_files w path = Some img"
  shows "restore_read_header w \<lparr>fpath = path, fptr = 0\<rparr> =
           (if length img < 28 \<or> magic (hdr_of_bytes (take 28 img)) \<noteq> FIMG_MAGIC then Inl (- 5)
            else if image_size (hdr_of_bytes (take 28 img)) = 0
                    \<or> chunk_size (hdr_of_bytes (take 28 img)) = 0 then Inl (- 6)
            else Inr (hdr_of_bytes (take 28 img), \<lparr>fpath = path, fptr = 28\<rparr>))"
  using assms by (auto simp: restore_read_header_def f_read_Some Let_def min_def)

text \<open>
  C6, as amended. When the header of the target has a wrong magic tag or a zero
  \<open>image_size\<close> or \<open>chunk_size\<close>, \<open>restore_flash_from_sd\<close> returns -5 or -6 in the
  world that \<open>flash_dut_init\<close> left: the only commands the chip has received are those of
  the initial soft reset and global unprotect, none of them a read, program or erase
  command, and the memory array is unchanged.
\<close>

theorem restore_bad_header:
  assumes mount: "fs_mount_once w = (True, w1)"
    and init: "flash_dut_init w1 = Some (ok, w2)"
    and target: "restore_target name w = Some path"
    and img: "sd_files w path = Some img"
    and bad: "magic (hdr_of_bytes (take 28 img)) \<noteq> FIMG_MAGIC
              \<or> image_size (hdr_of_bytes (take 28 img)) = 0
              \<or> chunk_size (hdr_of_bytes (take 28 img)) = 0"
  shows "\<exists>rc. restore_flash_from_sd name w = Some (rc, w2) \<and> (rc = - 5 \<or> rc = - 6) \<and>
           nor w2 = nor w \<and>
           bus_commands (bus w2) =
             bus_commands (bus w) @ [CMD_RSTEN, CMD_RST, CMD_ULBPR, CMD_WREN, CMD_WRSR]"
proof -
  note p = restore_prefix[OF mount init target img]
  have "sd_files w2 path = Some img"
    by (simp add: p(2) img)
  from restore_read_header_eq[OF this] bad
  have "restore_read_header w2 \<lparr>fpath = path, fptr = 0\<rparr> = Inl (- 5)
        \<or> restore_read_header w2 \<lparr>fpath = path, fptr = 0\<rparr> = Inl (- 6)"
    by auto
  then have "restore_flash_from_sd name w = Some (- 5, w2)
        \<or> restore_flash_from_sd name w = Some (- 6, w2)"
    by (auto simp: p(1))
  with p(4,5) show ?thesis by auto
qed

text \<open>
  C1. The header has passed validation, the payload and the trailer are in the file and
  the chunk buffer is allocated. If the recomputed checksum, the trailer and the header
  checksum do not all agree, \<open>restore_flash_from_sd\<close> returns -10; the commands on the bus
  are those of \<open>flash_dut_init\<close> alone, so no erase and no program command was issued,
  and the memory array is unchanged.
\<close>

theorem restore_crc_mismatch:
  assumes mount: "fs_mount_once w = (True, w1)"
    and init: "flash_dut_init w1 = Some (ok, w2)"
    and target: "restore_target name w = Some path"
    and img: "sd_files w path = Some img"
    and h: "h = hdr_of_bytes (take 28 img)"
    and valid: "magic h = FIMG_MAGIC" "image_size h \<noteq> 0" "chunk_size h \<noteq> 0"
    and len: "28 + unat (image_size h) + 4 \<le> length img"
    and buf: "malloc_feed w 0"
    and crc: "crc = crc32_update 0 (take (unat (image_size h)) (drop 28 img))"
    and mismatch: "\<not> (crc = le32_word (take 4 (drop (28 + unat (image_size h)) img))
                     \<and> crc = crc32_all h)"
  shows "\<exists>w3. restore_flash_from_sd name w = Some (- 10, w3) \<and> nor w3 = nor w \<and>
           bus_commands (bus w3) =
             bus_commands (bus w) @ [CMD_RSTEN, CMD_RST, CMD_ULBPR, CMD_WREN, CMD_WRSR]"
proof -
  note p = restore_prefix[OF mount init target img]
  define w3 where "w3 = snd (malloc (unat (chunk_size h)) w2)"
  have m: "malloc (unat (chunk_size h)) w2 = (True, w3)"
    by (simp add: w3_def malloc_def p(3) buf)
  have w3: "sd_files w3 = sd_files w" "nor w3 = nor w" "bus w3 = bus w2"
    by (simp_all add: w3_def malloc_def p)
  have f2: "sd_files w2 path = Some img" and f3: "sd_files w3 path = Some img"
    by (simp_all add: p(2) w3 img)
  have hd: "restore_read_header w2 \<lparr>fpath = path, fptr = 0\<rparr> = Inr (h, \<lparr>fpath = path, fptr = 28\<rparr>)"
    using valid len by (simp add: restore_read_header_eq[OF f2] h[symmetric])
  let ?fp = "\<lparr>fpath = path, fptr = 28\<rparr>"
  have seek: "f_lseek w3 ?fp 28 = ?fp"
    using len by (simp add: f_lseek_def f3)
  have loop: "restore_crc_loop w3 (chunk_size h) ?fp 0 (image_size h) =
      Some (Some (crc, \<lparr>fpath = path, fptr = 28 + unat (image_size h)\<rparr>))"
    using restore_crc_loop_complete[of w3 ?fp img "chunk_size h" "image_size h" 0] f3 valid len
    by (simp add: crc)
  have tr: "f_read w3 \<lparr>fpath = path, fptr = 28 + unat (image_size h)\<rparr> 4 =
      ((FR_OK, take 4 (drop (28 + unat (image_size h)) img)),
       \<lparr>fpath = path, fptr = 28 + unat (image_size h) + 4\<rparr>)"
    using len by (simp add: f_read_full[where content = img] f3)
  have "restore_check_crc w3 ?fp h = Some (Inl (- 10))"
    using mismatch len by (auto simp: restore_check_crc_def seek loop tr Let_def)
  then have "restore_image h ?fp w3 = Some (- 10, w3)"
    by (simp add: restore_image_def)
  then have "restore_flash_from_sd name w = Some (- 10, w3)"
    by (simp add: p(1) hd m)
  then show ?thesis
    by (auto simp: w3 p(5))
qed

lemma le32_word_bytes: "le32_word (le32_bytes x @ ys) = x"
  unfolding le32_word_def le32_bytes_def
proof (simp, rule bit_word_eqI)
  fix n
  assume "n < LENGTH(32)"
  then consider "n < 8" | "8 \<le> n" "n < 16" | "16 \<le> n" "n < 24" | "24 \<le> n" "n < 32"
    by fastforce
  then show "bit (ucast (ucast x :: u8) OR push_bit 8 (ucast (ucast (drop_bit 8 x) :: u8))
        OR push_bit 16 (ucast (ucast (drop_bit 16 x) :: u8))
        OR push_bit 24 (ucast (ucast (drop_bit 24 x) :: u8)) :: u32) n = bit x n"
    by cases (auto simp: bit_simps)
qed

lemma length_le32_bytes [simp]: "length (le32_bytes x) = 4"
  by (simp add: le32_bytes_def)

lemma length_FIMG_MAGIC [simp]: "length FIMG_MAGIC = 8"
  by (simp add: FIMG_MAGIC_def ascii_def)

lemma length_hdr_bytes:
  "length (magic h) = 8 \<Longrightarrow> length (jedec h) = 3 \<Longrightarrow> length (hdr_bytes h) = 28"
  by (simp add: hdr_bytes_def)

lemma hdr_of_bytes_hdr_bytes:
  assumes "length (magic h) = 8" "length (jedec h) = 3"
  shows "hdr_of_bytes (hdr_bytes h @ rest) = h"
proof -
  have "le32_word (le32_bytes a @ ys) = a" for a ys
    by (rule le32_word_bytes)
  note le = this this[of _ "[]", simplified]
  show ?thesis
    using assms
    by (simp add: hdr_of_bytes_def hdr_bytes_def nth_append le32_word_bytes le)
qed

lemma bus_addr_addr_hdr:
  "bus_addr (ucast (drop_bit 16 a)) (ucast (drop_bit 8 a)) (ucast (a :: u32)) = unat a mod 2 ^ 24"
proof -
  have 1: "unat (ucast (drop_bit 16 a) :: u8) = unat a div 65536 mod 256"
    by (simp add: unsigned_ucast_eq unsigned_drop_bit_eq take_bit_eq_mod drop_bit_eq_div unat_div)
  have 2: "unat (ucast (drop_bit 8 a) :: u8) = unat a div 256 mod 256"
    by (simp add: unsigned_ucast_eq unsigned_drop_bit_eq take_bit_eq_mod drop_bit_eq_div unat_div)
  have 3: "unat (ucast a :: u8) = unat a mod 256"
    by (simp add: unsigned_ucast_eq take_bit_eq_mod)
  have "unat a mod (65536 * 256) = 65536 * (unat a div 65536 mod 256) + unat a mod 65536"
    by (rule mod_mult2_eq)
  moreover have "unat a mod (256 * 256) = 256 * (unat a div 256 mod 256) + unat a mod 256"
    by (rule mod_mult2_eq)
  ultimately show ?thesis
    unfolding bus_addr_def 1 2 3 by simp
qed

lemma flash_dut_init_ready:
  "sr1_feed w 0 AND 1 = 0 \<Longrightarrow> flash_dut_init w = Some (True, unprotected (flash_soft_reset w))"
  by (simp add: flash_dut_init_def flash_global_unprotect_ready flash_soft_reset_def
        flash_cmd1_def sleep_ms_def spi_write_frame_def)

lemma card_world_facts:
  "fs_mount_once (card_world path img) = (True, card_world path img\<lparr>mounted := True\<rparr>)"
  "sr1_feed (card_world path img\<lparr>mounted := True\<rparr>) 0 AND 1 = 0"
  "sd_files (card_world path img) path = Some img"
  "malloc_feed (card_world path img) 0"
  "bus (card_world path img) = []"
  by (simp_all add: card_world_def idle_world_def fs_mount_once_def)

lemma restore_target_Some: "path \<noteq> [] \<Longrightarrow> restore_target (Some path) w = Some path"
  by (simp add: restore_target_def)

text \<open>
  C6 as stated fails: restoring a file whose header has \<open>image_size = 0\<close> returns -6, but
  by then five commands have gone to the chip, because \<open>flash_dut_init\<close> runs before the
  file is opened.
\<close>

theorem restore_bad_header_counterexample:
  "fst (the (restore_flash_from_sd (Some ''FLASHIMG/zero.fimg'')
               (card_world ''FLASHIMG/zero.fimg'' (hdr_bytes zero_header)))) = - 6 \<and>
   bus_commands (bus (snd (the (restore_flash_from_sd (Some ''FLASHIMG/zero.fimg'')
               (card_world ''FLASHIMG/zero.fimg'' (hdr_bytes zero_header)))))) =
     [CMD_RSTEN, CMD_RST, CMD_ULBPR, CMD_WREN, CMD_WRSR]"
proof -
  let ?p = "''FLASHIMG/zero.fimg''"
  let ?w = "card_world ?p (hdr_bytes zero_header)"
  let ?w2 = "unprotected (flash_soft_reset (?w\<lparr>mounted := True\<rparr>))"
  have init: "flash_dut_init (?w\<lparr>mounted := True\<rparr>) = Some (True, ?w2)"
    by (rule flash_dut_init_ready) (rule card_world_facts)
  have target: "restore_target (Some ?p) ?w = Some ?p"
    by (rule restore_target_Some) simp
  note p = restore_prefix[OF card_world_facts(1) init target card_world_facts(3)]
  have "hdr_of_bytes (hdr_bytes zero_header @ []) = zero_header"
    by (rule hdr_of_bytes_hdr_bytes) (simp_all add: zero_header_def)
  moreover have "length (hdr_bytes zero_header) = 28"
    by (rule length_hdr_bytes) (simp_all add: zero_header_def)
  ultimately have "restore_read_header ?w2 \<lparr>fpath = ?p, fptr = 0\<rparr> = Inl (- 6)"
    by (subst restore_read_header_eq[where img = "hdr_bytes zero_header"])
       (simp_all add: p(2) card_world_facts(3), simp add: zero_header_def)
  then have "restore_flash_from_sd (Some ?p) ?w = Some (- 6, ?w2)"
    by (simp add: p(1))
  then show ?thesis
    using p(5) by (simp add: card_world_facts(5) bus_commands_def)
qed

theorem restore_bad_header_witness:
  "\<exists>rc. restore_flash_from_sd (Some ''FLASHIMG/zero.fimg'')
           (card_world ''FLASHIMG/zero.fimg'' (hdr_bytes zero_header)) =
          Some (rc, unprotected (flash_soft_reset
             (card_world ''FLASHIMG/zero.fimg'' (hdr_bytes zero_header)\<lparr>mounted := True\<rparr>))) \<and>
        (rc = - 5 \<or> rc = - 6) \<and>
        nor (unprotected (flash_soft_reset
             (card_world ''FLASHIMG/zero.fimg'' (hdr_bytes zero_header)\<lparr>mounted := True\<rparr>))) =
          nor (card_world ''FLASHIMG/zero.fimg'' (hdr_bytes zero_header)) \<and>
        bus_commands (bus (unprotected (flash_soft_reset
             (card_world ''FLASHIMG/zero.fimg'' (hdr_bytes zero_header)\<lparr>mounted := True\<rparr>)))) =
          [CMD_RSTEN, CMD_RST, CMD_ULBPR, CMD_WREN, CMD_WRSR]"
proof -
  let ?p = "''FLASHIMG/zero.fimg''"
  let ?w = "card_world ?p (hdr_bytes zero_header)"
  let ?w2 = "unprotected (flash_soft_reset (?w\<lparr>mounted := True\<rparr>))"
  have init: "flash_dut_init (?w\<lparr>mounted := True\<rparr>) = Some (True, ?w2)"
    by (rule flash_dut_init_ready) (rule card_world_facts)
  have target: "restore_target (Some ?p) ?w = Some ?p"
    by (rule restore_target_Some) simp
  have "hdr_of_bytes (hdr_bytes zero_header @ []) = zero_header"
    by (rule hdr_of_bytes_hdr_bytes) (simp_all add: zero_header_def)
  moreover have "length (hdr_bytes zero_header) = 28"
    by (rule length_hdr_bytes) (simp_all add: zero_header_def)
  ultimately have bad: "magic (hdr_of_bytes (take 28 (hdr_bytes zero_header))) \<noteq> FIMG_MAGIC
              \<or> image_size (hdr_of_bytes (take 28 (hdr_bytes zero_header))) = 0
              \<or> chunk_size (hdr_of_bytes (take 28 (hdr_bytes zero_header))) = 0"
    by (simp add: zero_header_def)
  from restore_bad_header[OF card_world_facts(1) init target card_world_facts(3) bad]
  show ?thesis
    by (simp add: card_world_facts(5) bus_commands_def)
qed

theorem restore_crc_mismatch_witness:
  "\<exists>w3. restore_flash_from_sd (Some ''FLASHIMG/bad.fimg'')
           (card_world ''FLASHIMG/bad.fimg'' corrupt_image) = Some (- 10, w3) \<and>
         nor w3 = nor (card_world ''FLASHIMG/bad.fimg'' corrupt_image) \<and>
         bus_commands (bus w3) = [CMD_RSTEN, CMD_RST, CMD_ULBPR, CMD_WREN, CMD_WRSR]"
proof -
  let ?p = "''FLASHIMG/bad.fimg''"
  let ?h = "zero_header\<lparr>image_size := 1\<rparr>"
  let ?w = "card_world ?p corrupt_image"
  let ?w2 = "unprotected (flash_soft_reset (?w\<lparr>mounted := True\<rparr>))"
  have init: "flash_dut_init (?w\<lparr>mounted := True\<rparr>) = Some (True, ?w2)"
    by (rule flash_dut_init_ready) (rule card_world_facts)
  have target: "restore_target (Some ?p) ?w = Some ?p"
    by (rule restore_target_Some) simp
  have len: "length (hdr_bytes ?h) = 28"
    by (rule length_hdr_bytes) (simp_all add: zero_header_def)
  have "hdr_of_bytes (hdr_bytes ?h @ []) = ?h"
    by (rule hdr_of_bytes_hdr_bytes) (simp_all add: zero_header_def)
  then have h: "?h = hdr_of_bytes (take 28 corrupt_image)"
    by (simp add: corrupt_image_def len)
  have payload: "take (unat (image_size ?h)) (drop 28 corrupt_image) = [0x5A]"
    by (simp add: corrupt_image_def len)
  have crc: "crc32_update 0 [0x5A] \<noteq> 0"
    by code_simp
  have mismatch: "\<not> (crc32_update 0 [0x5A] =
        le32_word (take 4 (drop (28 + unat (image_size ?h)) corrupt_image))
        \<and> crc32_update 0 [0x5A] = crc32_all ?h)"
    using crc by (simp add: zero_header_def)
  have valid: "magic ?h = FIMG_MAGIC" "image_size ?h \<noteq> 0" "chunk_size ?h \<noteq> 0"
    by (simp_all add: zero_header_def)
  have enough: "28 + unat (image_size ?h) + 4 \<le> length corrupt_image"
    by (simp add: corrupt_image_def len)
  have crc_eq: "crc32_update 0 [0x5A] =
      crc32_update 0 (take (unat (image_size ?h)) (drop 28 corrupt_image))"
    by (simp only: payload)
  have "bus_commands (bus ?w) = []"
    by (simp add: card_world_facts(5) bus_commands_def)
  with restore_crc_mismatch[OF card_world_facts(1) init target card_world_facts(3) h valid
      enough card_world_facts(4) crc_eq mismatch]
  show ?thesis
    by simp
qed

text \<open>
  C9. Two images without timestamps, the lexicographically greater name listed first:
  \<open>choose_latest_image\<close> returns the second, smaller one. The comparison is
  \<open>strcmp(f.fname, best_path)\<close>, a bare file name against a path that starts with
  \<open>FLASHIMG/\<close>, so every name that starts with a character above \<open>F\<close> counts as
  newer.
\<close>

theorem choose_latest_image_unstamped:
  "choose_latest_image (idle_world\<lparr>sd_dir := Some unstamped_dir\<rparr>) =
     Some ''FLASHIMG/t0000001000_ef4018.fimg'' \<and>
   strcmp ''t0000002000_ef4018.fimg'' ''t0000001000_ef4018.fimg'' > 0"
  by (simp add: choose_latest_image_def unstamped_dir_def Let_def)

lemma page_step_arith:
  fixes addr n off :: u32
  assumes "off < n"
  defines "page_off \<equiv> (addr + off) AND 255"
  defines "room \<equiv> 256 - page_off"
  defines "wr \<equiv> (if n - off > room then room else n - off)"
  shows "unat wr = min (unat n - unat off) (256 - (unat addr + unat off) mod 256)"
    and "unat (off + wr) = unat off + unat wr"
    and "0 < unat wr" and "unat wr \<le> 256" and "off + wr \<le> n"
    and "unat (addr + off) mod 2 ^ 24 = (unat addr + unat off) mod 2 ^ 24"
proof -
  have po: "unat page_off = (unat addr + unat off) mod 256"
  proof -
    have "page_off = (addr + off) AND mask 8"
      by (simp add: page_off_def mask_eq_exp_minus_1)
    then have "page_off = take_bit 8 (addr + off)"
      by (simp add: take_bit_eq_mask)
    then have "unat page_off = unat (addr + off) mod 2 ^ 8"
      by (simp add: unsigned_take_bit_eq take_bit_eq_mod unat_mod)
    also have "\<dots> = (unat addr + unat off) mod 2 ^ 32 mod 2 ^ 8"
      by (simp add: unat_word_ariths)
    also have "\<dots> = (unat addr + unat off) mod 2 ^ 8"
      by (rule mod_mod_cancel) simp
    finally show ?thesis by simp
  qed
  then have "unat page_off < 256"
    by simp
  then have "page_off \<le> 256"
    by (simp add: word_le_nat_alt)
  then have room: "unat room = 256 - (unat addr + unat off) mod 256"
    by (simp add: room_def unat_sub po)
  have sub: "unat (n - off) = unat n - unat off"
    using assms(1) by (simp add: unat_sub word_less_nat_alt word_le_nat_alt)
  have lt: "unat off < unat n"
    using assms(1) by (simp add: word_less_nat_alt)
  show wr: "unat wr = min (unat n - unat off) (256 - (unat addr + unat off) mod 256)"
    by (auto simp: wr_def word_less_nat_alt sub room min_def)
  have "unat n < 2 ^ 32"
    using unsigned_less[of n] by simp
  then have "unat off + unat wr < 2 ^ 32"
    using wr lt by simp
  then show ow: "unat (off + wr) = unat off + unat wr"
    by (simp add: unat_word_ariths)
  show "0 < unat wr" "unat wr \<le> 256"
    using wr lt by simp_all
  show "off + wr \<le> n"
    using wr lt by (simp add: word_le_nat_alt ow)
  have "unat (addr + off) mod 2 ^ 24 = (unat addr + unat off) mod 2 ^ 32 mod 2 ^ 24"
    by (simp add: unat_word_ariths)
  also have "\<dots> = (unat addr + unat off) mod 2 ^ 24"
    by (rule mod_mod_cancel) simp
  finally show "unat (addr + off) mod 2 ^ 24 = (unat addr + unat off) mod 2 ^ 24" .
qed

lemma pp_calls_append [simp]: "pp_calls (fs @ gs) = pp_calls fs @ pp_calls gs"
  by (simp add: pp_calls_def)

lemma pp_calls_replicate_SR1 [simp]: "pp_calls (replicate k SR1_FRAME) = []"
  by (induction k) (simp_all add: pp_calls_def SR1_FRAME_def)

lemma pp_calls_polled [simp]: "pp_calls (bus (polled k j w)) = pp_calls (bus w)"
  by (simp add: polled_def)

lemma pp_calls_spi_write_frame [simp]:
  "pp_calls (bus (spi_write_frame tx w)) = pp_calls (bus w) @ pp_calls [Frame tx 0]"
  by (simp add: spi_write_frame_def)

lemma pp_calls_frame [simp]:
  "pp_calls [Frame [c] k] = []"
  "pp_calls [Frame (CMD_PP # a2 # a1 # a0 # d) k] = [(bus_addr a2 a1 a0, d)]"
  by (simp_all add: pp_calls_def)

lemma flash_dut_program_page_run:
  assumes run: "flash_dut_program_page addr (Some d) w = Some (ok, w1)"
    and d: "d \<noteq> []" "length d \<le> 256"
  shows "flash_only w w1"
    and "nor w1 = nor_program (unat addr mod 2 ^ 24) d (nor w)"
    and "pp_calls (bus w1) = pp_calls (bus w) @ [(unat addr mod 2 ^ 24, d)]"
proof -
  let ?v = "spi_write_frame (addr_hdr CMD_PP addr @ d) (flash_wren w)"
  from run d have "flash_wait_busy_timeout (10 * 1000) ?v = Some (ok, w1)"
    by (simp add: flash_dut_program_page_def)
  from flash_wait_busy_timeout_polled[OF this] obtain k j where w1: "w1 = polled (Suc k) (Suc j) ?v"
    by blast
  show "flash_only w w1"
    unfolding w1 flash_wren_def flash_cmd1_def by (intro flash_only_steps flash_only_refl)
  show "nor w1 = nor_program (unat addr mod 2 ^ 24) d (nor w)"
    by (simp add: w1 flash_wren_def flash_cmd1_def addr_hdr_def bus_addr_addr_hdr)
  show "pp_calls (bus w1) = pp_calls (bus w) @ [(unat addr mod 2 ^ 24, d)]"
    by (simp add: w1 flash_wren_def flash_cmd1_def addr_hdr_def bus_addr_addr_hdr)
qed

lemma page_exact_split_Nil [simp]: "page_exact_split a [] = []"
  by (simp add: page_exact_split.simps)

lemma page_exact_split_step:
  "xs \<noteq> [] \<Longrightarrow> len = min (length xs) (256 - a mod 256) \<Longrightarrow>
     page_exact_split a xs = (a, take len xs) # page_exact_split (a + len) (drop len xs)"
  by (subst page_exact_split.simps) (simp add: Let_def)

lemma apply_spans_simps [simp]:
  "apply_spans [] m = m"
  "apply_spans ((a, d) # spans) m = apply_spans spans (nor_program (a mod 2 ^ 24) d m)"
  by (simp_all add: apply_spans_def)

lemma restore_page_loop_run_aux:
  "restore_page_loop addr buf n off w = Some y \<Longrightarrow>
     length buf = unat n \<longrightarrow>
       flash_only w (snd y) \<and>
       (fst y \<longrightarrow>
          pp_calls (bus (snd y)) =
            pp_calls (bus w) @ map (\<lambda>(a, d). (a mod 2 ^ 24, d))
              (page_exact_split (unat addr + unat off) (drop (unat off) buf)) \<and>
          nor (snd y) =
            apply_spans (page_exact_split (unat addr + unat off) (drop (unat off) buf)) (nor w))"
proof (induction rule: restore_page_loop.raw_induct[rotated 1, consumes 1])
  case (1 loop addr buf n off w y)
  show ?case
  proof (intro impI)
    assume len: "length buf = unat n"
    show "flash_only w (snd y) \<and>
       (fst y \<longrightarrow>
          pp_calls (bus (snd y)) =
            pp_calls (bus w) @ map (\<lambda>(a, d). (a mod 2 ^ 24, d))
              (page_exact_split (unat addr + unat off) (drop (unat off) buf)) \<and>
          nor (snd y) =
            apply_spans (page_exact_split (unat addr + unat off) (drop (unat off) buf)) (nor w))"
    proof (cases "off < n")
      case False
      then have "unat n \<le> unat off"
        by (simp add: word_less_nat_alt)
      with 1(2) False len show ?thesis
        by auto
    next
      case True
      define wr where "wr = (if n - off > 256 - ((addr + off) AND 255)
                             then 256 - ((addr + off) AND 255) else n - off)"
      define d where "d = take (unat wr) (drop (unat off) buf)"
      note ar = page_step_arith[OF True, of addr, folded wr_def]
      have lt: "unat off < unat n"
        using True by (simp add: word_less_nat_alt)
      have dl: "length d = unat wr"
        using ar(1) lt len by (simp add: d_def)
      then have dn: "d \<noteq> []" "length d \<le> 256"
        using ar(3,4) by auto
      from 1(2) True obtain ok w1 where
        pg: "flash_dut_program_page (addr + off) (Some d) w = Some (ok, w1)"
        and rest: "(if \<not> ok then Some (False, w1) else loop addr buf n (off + wr) w1) = Some y"
        by (auto simp: Let_def wr_def[symmetric] d_def[symmetric] split: option.splits cong: if_cong)
      note p = flash_dut_program_page_run[OF pg dn, unfolded ar(6)]
      show ?thesis
      proof (cases ok)
        case False
        with rest p(1) show ?thesis by auto
      next
        case ok: True
        with rest have "loop addr buf n (off + wr) w1 = Some y"
          by simp
        from 1(1)[OF this] len
        have IH: "flash_only w1 (snd y)"
          "fst y \<Longrightarrow> pp_calls (bus (snd y)) =
            pp_calls (bus w1) @ map (\<lambda>(a, d). (a mod 2 ^ 24, d))
              (page_exact_split (unat addr + unat (off + wr)) (drop (unat (off + wr)) buf))"
          "fst y \<Longrightarrow> nor (snd y) =
            apply_spans (page_exact_split (unat addr + unat (off + wr)) (drop (unat (off + wr)) buf)) (nor w1)"
          by auto
        have ne: "drop (unat off) buf \<noteq> []"
          using lt len by simp
        have m: "unat wr = min (length (drop (unat off) buf)) (256 - (unat addr + unat off) mod 256)"
          using ar(1) len by simp
        have split: "page_exact_split (unat addr + unat off) (drop (unat off) buf) =
            (unat addr + unat off, d)
              # page_exact_split (unat addr + unat (off + wr)) (drop (unat (off + wr)) buf)"
          by (subst page_exact_split_step[OF ne m])
             (simp add: d_def ar(2) add.assoc add.commute[of "unat wr"])
        show ?thesis
          using IH p flash_only_trans[OF p(1) IH(1)]
          by (simp add: split)
      qed
    qed
  qed
qed

lemma page_exact_split_concat: "concat (map snd (page_exact_split a xs)) = xs"
proof (induction a xs rule: page_exact_split.induct)
  case (1 a xs)
  show ?case
  proof (cases "xs = []")
    case True
    then show ?thesis by simp
  next
    case False
    define len where "len = min (length xs) (256 - a mod 256)"
    from 1[OF False refl len_def] page_exact_split_step[OF False len_def]
    show ?thesis by simp
  qed
qed

lemma page_exact_split_in_page:
  "(b, d) \<in> set (page_exact_split a xs) \<Longrightarrow> d \<noteq> [] \<and> b mod 256 + length d \<le> 256"
proof (induction a xs rule: page_exact_split.induct)
  case (1 a xs)
  show ?case
  proof (cases "xs = []")
    case True
    with 1(2) show ?thesis by simp
  next
    case False
    define len where "len = min (length xs) (256 - a mod 256)"
    have "0 < len" "a mod 256 + len \<le> 256"
      using False by (simp_all add: len_def)
    with 1(1)[OF False refl len_def] 1(2) page_exact_split_step[OF False len_def]
    show ?thesis by auto
  qed
qed

lemma page_exact_split_nth:
  "i < length (page_exact_split a xs) \<Longrightarrow>
     fst (page_exact_split a xs ! i) =
       a + length (concat (map snd (take i (page_exact_split a xs)))) \<and>
     length (snd (page_exact_split a xs ! i)) =
       min (length xs - length (concat (map snd (take i (page_exact_split a xs)))))
           (256 - fst (page_exact_split a xs ! i) mod 256)"
proof (induction i arbitrary: a xs)
  case 0
  then have ne: "xs \<noteq> []"
    by (cases "xs = []") simp_all
  show ?case
    by (simp add: page_exact_split_step[OF ne refl])
next
  case (Suc i)
  then have ne: "xs \<noteq> []"
    by (cases "xs = []") simp_all
  define len where "len = min (length xs) (256 - a mod 256)"
  note st = page_exact_split_step[OF ne len_def]
  have "i < length (page_exact_split (a + len) (drop len xs))"
    using Suc.prems by (simp add: st)
  from Suc.IH[OF this] show ?case
    by (simp add: st len_def add.assoc)
qed

lemma flash_only_sr1:
  "flash_only w w' \<Longrightarrow> \<exists>k. sr1_feed w' = (\<lambda>i. sr1_feed w (i + k))"
  unfolding flash_only_def
proof (elim exE)
  fix fs k j
  assume 1: "w' = w\<lparr>nor := nor w', bus := bus w @ fs,
      sr1_feed := (\<lambda>i. sr1_feed w (i + k)), clock_feed := (\<lambda>i. clock_feed w (i + j))\<rparr>"
  have "sr1_feed w' = (\<lambda>i. sr1_feed w (i + k))"
    by (subst 1) simp
  then show ?thesis ..
qed

lemma never_busy_flash_only: "flash_only w w' \<Longrightarrow> never_busy w \<Longrightarrow> never_busy w'"
  by (drule flash_only_sr1) (auto simp: never_busy_def)

lemma flash_dut_program_page_ready:
  assumes "never_busy w" "d \<noteq> []" "length d \<le> 256"
  shows "flash_dut_program_page addr (Some d) w =
           Some (True, polled 1 1 (spi_write_frame (addr_hdr CMD_PP addr @ d) (flash_wren w)))"
proof -
  have "sr1_feed (spi_write_frame (addr_hdr CMD_PP addr @ d) (flash_wren w)) 0 AND 1 = 0"
    using assms(1) by (simp add: never_busy_def spi_write_frame_def flash_wren_def flash_cmd1_def)
  then show ?thesis
    using assms(2,3) by (simp add: flash_dut_program_page_def flash_wait_busy_timeout_ready)
qed

lemma restore_page_loop_ready:
  assumes "never_busy w" "length buf = unat n"
  shows "\<exists>w'. restore_page_loop addr buf n off w = Some (True, w')"
  using assms
proof (induction "unat n - unat off" arbitrary: off w rule: less_induct)
  case less
  show ?case
  proof (cases "off < n")
    case False
    then show ?thesis
      by (subst restore_page_loop.simps) simp
  next
    case True
    define wr where "wr = (if n - off > 256 - ((addr + off) AND 255)
                           then 256 - ((addr + off) AND 255) else n - off)"
    define d where "d = take (unat wr) (drop (unat off) buf)"
    note ar = page_step_arith[OF True, of addr, folded wr_def]
    have lt: "unat off < unat n"
      using True by (simp add: word_less_nat_alt)
    have dl: "length d = unat wr"
      using ar(1) lt less.prems(2) by (simp add: d_def)
    then have dn: "d \<noteq> []" "length d \<le> 256"
      using ar(3,4) by auto
    let ?w1 = "polled 1 1 (spi_write_frame (addr_hdr CMD_PP (addr + off) @ d) (flash_wren w))"
    have pg: "flash_dut_program_page (addr + off) (Some d) w = Some (True, ?w1)"
      by (rule flash_dut_program_page_ready[OF less.prems(1) dn])
    have "never_busy ?w1"
      by (rule never_busy_flash_only[OF flash_dut_program_page_run(1)[OF pg dn] less.prems(1)])
    moreover have "unat n - unat (off + wr) < unat n - unat off"
      using ar(2,3) lt by simp
    ultimately obtain w' where "restore_page_loop addr buf n (off + wr) ?w1 = Some (True, w')"
      using less.hyps[of "off + wr" ?w1] less.prems(2) by blast
    then show ?thesis
      using True pg
      by (subst restore_page_loop.simps)
         (simp add: Let_def wr_def[symmetric] d_def[symmetric] cong: if_cong)
  qed
qed

text \<open>
  C4. For every start address and every chunk, on a chip that answers ready, the inner
  programming loop of restore runs through the chunk and reports success, and the program
  commands it puts on the bus are those of the page-exact reference splitter: call \<open>i\<close>
  starts where the previous ones ended and has length
  \<open>min(remaining, 256 - (address mod 256))\<close>, no call is empty or crosses a 256-byte page
  boundary, the data of the calls concatenate to the chunk, and the array ends up as the
  reference splitter's calls leave it. This holds for every start address, 0, 255, 256
  and 4095 among them.
\<close>

theorem restore_page_loop_page_split:
  assumes ready: "never_busy w"
    and len: "length buf = unat n"
  shows "\<exists>w'. restore_page_loop addr buf n 0 w = Some (True, w') \<and>
           (let spans = page_exact_split (unat addr) buf in
              pp_calls (bus w') = pp_calls (bus w) @ map (\<lambda>(a, d). (a mod 2 ^ 24, d)) spans \<and>
              (\<forall>i < length spans.
                 fst (spans ! i) = unat addr + length (concat (map snd (take i spans))) \<and>
                 length (snd (spans ! i)) =
                   min (length buf - length (concat (map snd (take i spans))))
                       (256 - fst (spans ! i) mod 256)) \<and>
              (\<forall>(a, d) \<in> set spans. d \<noteq> [] \<and> a mod 256 + length d \<le> 256) \<and>
              concat (map snd spans) = buf \<and>
              nor w' = apply_spans spans (nor w))"
proof -
  from restore_page_loop_ready[OF ready len, of addr 0]
  obtain w' where run: "restore_page_loop addr buf n 0 w = Some (True, w')"
    by blast
  from restore_page_loop_run_aux[OF run] len
  have "pp_calls (bus w') =
          pp_calls (bus w) @ map (\<lambda>(a, d). (a mod 2 ^ 24, d)) (page_exact_split (unat addr) buf)"
    and "nor w' = apply_spans (page_exact_split (unat addr) buf) (nor w)"
    by simp_all
  moreover have "\<forall>(a, d) \<in> set (page_exact_split (unat addr) buf).
      d \<noteq> [] \<and> a mod 256 + length d \<le> 256"
    using page_exact_split_in_page by blast
  ultimately have "let spans = page_exact_split (unat addr) buf in
              pp_calls (bus w') = pp_calls (bus w) @ map (\<lambda>(a, d). (a mod 2 ^ 24, d)) spans \<and>
              (\<forall>i < length spans.
                 fst (spans ! i) = unat addr + length (concat (map snd (take i spans))) \<and>
                 length (snd (spans ! i)) =
                   min (length buf - length (concat (map snd (take i spans))))
                       (256 - fst (spans ! i) mod 256)) \<and>
              (\<forall>(a, d) \<in> set spans. d \<noteq> [] \<and> a mod 256 + length d \<le> 256) \<and>
              concat (map snd spans) = buf \<and>
              nor w' = apply_spans spans (nor w)"
    unfolding Let_def
    by (intro conjI allI impI page_exact_split_nth[THEN conjunct1]
          page_exact_split_nth[THEN conjunct2] page_exact_split_concat)
  with run show ?thesis
    by blast
qed

theorem restore_page_loop_page_split_witness:
  "\<exists>w'. restore_page_loop 255 [1, 2, 3] 3 0 idle_world = Some (True, w') \<and>
     pp_calls (bus w') = [(255, [1]), (256, [2, 3])] \<and>
     map (nor w') [254, 255, 256, 257, 258] = [0xFF, 1, 2, 3, 0xFF]"
proof -
  have ready: "never_busy idle_world"
    by (simp add: never_busy_def idle_world_def)
  have len: "length [1, 2, 3 :: u8] = unat (3 :: u32)"
    by simp
  have split: "page_exact_split 255 [1, 2, 3 :: u8] = [(255, [1]), (256, [2, 3])]"
    by (simp add: page_exact_split.simps)
  have "bus idle_world = []" "nor idle_world = (\<lambda>a. 0xFF)"
    by (simp_all add: idle_world_def)
  with restore_page_loop_page_split[OF ready len, of 255] show ?thesis
    by (elim exE conjE) (simp add: split Let_def pp_calls_def)
qed

section \<open>Backup followed by restore\<close>

lemma nor_write_Nil [simp]: "nor_write a [] m = m"
  by (auto simp: nor_write_def fun_eq_iff)

lemma nor_write_Cons:
  "nor_write a (x # xs) m = nor_write (Suc a) xs (m(a := m a AND x))"
  by (rule ext) (auto simp: nor_write_def nth_Cons')

lemma nor_program_in_page:
  "a mod 256 + length d \<le> 256 \<Longrightarrow> nor_program a d m = nor_write a d m"
proof (induction d arbitrary: a m)
  case Nil
  show ?case by simp
next
  case (Cons x d)
  show ?case
  proof (cases "d = []")
    case True
    then show ?thesis
      by (simp add: nor_write_Cons)
  next
    case False
    then have lt: "a mod 256 < 255"
      using Cons.prems by (cases d) auto
    then have sm: "Suc a mod 256 = Suc (a mod 256)"
      by (simp add: mod_Suc)
    have "a div 256 * 256 + Suc (a mod 256) = Suc (a div 256 * 256 + a mod 256)"
      by simp
    also have "\<dots> = Suc a"
      by (simp only: div_mult_mod_eq)
    finally have next_a: "a div 256 * 256 + Suc a mod 256 = Suc a"
      by (simp only: sm)
    have in_page: "Suc a mod 256 + length d \<le> 256"
      using Cons.prems sm by simp
    have "nor_program a (x # d) m = nor_program (Suc a) d (m(a := m a AND x))"
      using next_a by simp
    also have "\<dots> = nor_write (Suc a) d (m(a := m a AND x))"
      by (rule Cons.IH[OF in_page])
    also have "\<dots> = nor_write a (x # d) m"
      by (rule nor_write_Cons[symmetric])
    finally show ?thesis .
  qed
qed

lemma nor_write_append:
  "nor_write a (xs @ ys) m = nor_write (a + length xs) ys (nor_write a xs m)"
  by (induction xs arbitrary: a m) (simp_all add: nor_write_Cons)

lemma apply_spans_page_exact_split:
  "a mod 2 ^ 24 + length xs \<le> 2 ^ 24 \<Longrightarrow>
     apply_spans (page_exact_split a xs) m = nor_write (a mod 2 ^ 24) xs m"
proof (induction a xs arbitrary: m rule: page_exact_split.induct)
  case (1 a xs)
  show ?case
  proof (cases "xs = []")
    case True
    then show ?thesis by simp
  next
    case False
    define len where "len = min (length xs) (256 - a mod 256)"
    have len: "0 < len" "len \<le> length xs" "a mod 256 + len \<le> 256"
      using False by (simp_all add: len_def)
    have "a mod (65536 * 256) mod 256 = a mod 256"
      by (rule mod_mod_cancel) simp
    then have m256: "a mod 16777216 mod 256 = a mod 256"
      by simp
    have first: "nor_program (a mod 16777216) (take len xs) m = nor_write (a mod 16777216) (take len xs) m"
      using len by (intro nor_program_in_page) (simp add: m256)
    show ?thesis
    proof (cases "len = length xs")
      case True
      then show ?thesis
        using first by (simp add: page_exact_split_step[OF False len_def])
    next
      case ne: False
      then have lt: "a mod 16777216 + len < 16777216"
        using len(2) "1.prems" by simp
      have "(a + len) mod 16777216 = (a mod 16777216 + len) mod 16777216"
        by (simp add: mod_add_left_eq)
      also have "\<dots> = a mod 16777216 + len"
        using lt by (rule mod_less)
      finally have nxt: "(a + len) mod 16777216 = a mod 16777216 + len" .
      then have "(a + len) mod 2 ^ 24 + length (drop len xs) \<le> 2 ^ 24"
        using "1.prems" len(2) by simp
      from "1.IH"[OF False refl len_def this]
      have IH: "apply_spans (page_exact_split (a + len) (drop len xs)) (nor_write (a mod 16777216) (take len xs) m)
          = nor_write (a mod 16777216 + len) (drop len xs) (nor_write (a mod 16777216) (take len xs) m)"
        by (simp add: nxt)
      have ltk: "length (take len xs) = len"
        using len(2) by simp
      have "nor_write (a mod 16777216) xs m = nor_write (a mod 16777216) (take len xs @ drop len xs) m"
        by (simp only: append_take_drop_id)
      also have "\<dots> = nor_write (a mod 16777216 + length (take len xs)) (drop len xs)
            (nor_write (a mod 16777216) (take len xs) m)"
        by (rule nor_write_append)
      finally have whole: "nor_write (a mod 16777216) xs m =
          nor_write (a mod 16777216 + len) (drop len xs) (nor_write (a mod 16777216) (take len xs) m)"
        by (simp only: ltk)
      have "apply_spans (page_exact_split a xs) m =
          apply_spans (page_exact_split (a + len) (drop len xs)) (nor_program (a mod 16777216) (take len xs) m)"
        by (simp add: page_exact_split_step[OF False len_def])
      also have "\<dots> = nor_write (a mod 16777216) xs m"
        by (simp only: first IH) (simp only: whole)
      finally show ?thesis by simp
    qed
  qed
qed

lemma nor_read_append:
  "nor_read m a (n + k) = nor_read m a n @ nor_read m (a + n) k"
proof -
  have "[0..<n + k] = [0..<n] @ [n..<n + k]"
    by (rule upt_add_eq_append) simp
  moreover have "[n..<n + k] = map (\<lambda>i. i + n) [0..<k]"
    by (simp add: map_add_upt add.commute)
  ultimately have "[0..<n + k] = [0..<n] @ map (\<lambda>i. i + n) [0..<k]"
    by simp
  then show ?thesis
    by (simp add: nor_read_def comp_def ac_simps)
qed

lemma nor_read_mod: "nor_read m (a mod 2 ^ 24) n = nor_read m a n"
  by (simp add: nor_read_def mod_add_left_eq)

lemma length_nor_read [simp]: "length (nor_read m a n) = n"
  by (simp add: nor_read_def)

lemma nth_nor_read: "i < n \<Longrightarrow> nor_read m a n ! i = m ((a + i) mod 2 ^ 24)"
  by (simp add: nor_read_def)

lemma sector_image:
  fixes p b :: nat
  assumes "4096 dvd p" "p \<le> b" "b < p + 4096"
  shows "b mod 16777216 = p mod 16777216 + (b - p)" and "p mod 16777216 + 4096 \<le> 16777216"
    and "4096 dvd p mod 16777216"
proof -
  have "(4096 :: nat) dvd 16777216"
    by simp
  with assms(1) show d: "4096 dvd p mod 16777216"
    by (simp add: dvd_mod)
  then obtain k where k: "p mod 16777216 = 4096 * k"
    by (auto simp: dvd_def)
  have "p mod 16777216 < 16777216"
    by simp
  then have "k < 4096"
    unfolding k by simp
  then have "k + 1 \<le> 4096"
    by simp
  then have "4096 * (k + 1) \<le> 4096 * 4096"
    by (rule mult_le_mono2)
  then show le: "p mod 16777216 + 4096 \<le> 16777216"
    unfolding k by simp
  have "b = p + (b - p)"
    using assms(2) by simp
  then have "b mod 16777216 = (p mod 16777216 + (b - p)) mod 16777216"
    by (metis mod_add_left_eq)
  also have "\<dots> = p mod 16777216 + (b - p)"
    using le assms(3) by (intro mod_less) simp
  finally show "b mod 16777216 = p mod 16777216 + (b - p)" .
qed

lemma nor_erase_sector:
  fixes a :: nat
  assumes "4096 dvd a"
  shows "nor_erase 4096 (a mod 2 ^ 24) m = erased a (a + 4096) m"
proof (rule ext)
  fix x
  let ?A = "a mod 16777216"
  note s = sector_image(2,3)[OF assms le_refl, simplified]
  have "x div 4096 = ?A div 4096 \<longleftrightarrow> (\<exists>b. a \<le> b \<and> b < a + 4096 \<and> b mod 16777216 = x)"
  proof
    assume eq: "x div 4096 = ?A div 4096"
    have A: "?A = 4096 * (?A div 4096)"
      using s(2) by simp
    have "x = 4096 * (x div 4096) + x mod 4096"
      by simp
    then have x: "x = ?A + x mod 4096"
      using A eq by simp
    have "(a + x mod 4096) mod 16777216 = ?A + (a + x mod 4096 - a)"
      by (rule sector_image(1)[OF assms]) simp_all
    then have "(a + x mod 4096) mod 16777216 = x"
      using x by simp
    then show "\<exists>b. a \<le> b \<and> b < a + 4096 \<and> b mod 16777216 = x"
      by (intro exI[of _ "a + x mod 4096"]) simp
  next
    assume "\<exists>b. a \<le> b \<and> b < a + 4096 \<and> b mod 16777216 = x"
    then obtain b where b: "a \<le> b" "b < a + 4096" "b mod 16777216 = x"
      by blast
    from sector_image(1)[OF assms b(1,2)] b(3) have x: "x = ?A + (b - a)"
      by simp
    obtain k where k: "?A = 4096 * k"
      using s(2) by (auto simp: dvd_def)
    have "b - a < 4096"
      using b by simp
    then show "x div 4096 = ?A div 4096"
      unfolding x k by simp
  qed
  then show "nor_erase 4096 (a mod 2 ^ 24) m x = erased a (a + 4096) m x"
    by (simp add: nor_erase_def erased_def)
qed

lemma erased_erased:
  assumes "lo \<le> mid" "mid \<le> hi"
  shows "erased mid hi (erased lo mid m) = erased lo hi m"
proof (rule ext)
  fix x
  let ?L = "\<exists>b. lo \<le> b \<and> b < hi \<and> b mod 2 ^ 24 = x"
  let ?M = "\<exists>b. mid \<le> b \<and> b < hi \<and> b mod 2 ^ 24 = x"
  let ?R = "\<exists>b. lo \<le> b \<and> b < mid \<and> b mod 2 ^ 24 = x"
  have L: "?L" if "?M \<or> ?R"
    using that
  proof
    assume ?M
    then obtain b where "mid \<le> b" "b < hi" "b mod 2 ^ 24 = x"
      by blast
    then show ?thesis
      using assms(1) by (intro exI[of _ b]) simp
  next
    assume ?R
    then obtain b where "lo \<le> b" "b < mid" "b mod 2 ^ 24 = x"
      by blast
    then show ?thesis
      using assms(2) by (intro exI[of _ b]) simp
  qed
  have MR: "?M \<or> ?R" if ?L
  proof -
    from that obtain b where b: "lo \<le> b" "b < hi" "b mod 2 ^ 24 = x"
      by blast
    show ?thesis
    proof (cases "b < mid")
      case True
      with b show ?thesis by blast
    next
      case False
      then have "mid \<le> b" by simp
      with b show ?thesis by blast
    qed
  qed
  have lhs: "erased mid hi (erased lo mid m) x = (if ?M then 0xFF else if ?R then 0xFF else m x)"
    by (simp only: erased_def)
  have rhs: "erased lo hi m x = (if ?L then 0xFF else m x)"
    by (simp only: erased_def)
  show "erased mid hi (erased lo mid m) x = erased lo hi m x"
  proof (cases "?M \<or> ?R")
    case True
    then have "(if ?M then 0xFF else if ?R then 0xFF else m x) = (0xFF :: u8)"
      by (rule disjE) (simp_all only: if_True if_cancel)
    moreover have "(if ?L then 0xFF else m x) = (0xFF :: u8)"
      using L[OF True] by (simp only: if_True)
    ultimately show ?thesis
      by (simp only: lhs rhs)
  next
    case False
    then have "\<not> ?M" "\<not> ?R" "\<not> ?L"
      using MR by blast+
    then have "(if ?M then 0xFF else if ?R then 0xFF else m x) = m x"
      "(if ?L then 0xFF else m x) = m x"
      by (simp_all only: if_False)
    then show ?thesis
      by (simp only: lhs rhs)
  qed
qed

lemma erased_empty [simp]: "erased a a m = m"
  by (auto simp: erased_def fun_eq_iff)

lemma erased_inv_nor: "erased 0 S cur = inv_nor orig cur S 0"
  by (simp add: erased_def inv_nor_def)

lemma reached_iff:
  fixes S x :: nat
  shows "(\<exists>b<S. b mod 2 ^ 24 = x) \<longleftrightarrow> x < S \<and> x < 2 ^ 24"
proof
  assume "\<exists>b<S. b mod 2 ^ 24 = x"
  then obtain b where b: "b < S" "b mod 2 ^ 24 = x"
    by blast
  have "b mod 2 ^ 24 \<le> b" "b mod 2 ^ 24 < (2 ^ 24 :: nat)"
    by simp_all
  with b show "x < S \<and> x < 2 ^ 24"
    by simp
next
  assume "x < S \<and> x < 2 ^ 24"
  then show "\<exists>b<S. b mod 2 ^ 24 = x"
    by (intro exI[of _ x]) simp
qed

lemma inv_nor_done:
  "inv_nor orig cur S S = (\<lambda>x. if x < S \<and> x < 2 ^ 24 then orig x else cur x)"
  unfolding inv_nor_def reached_iff by (rule ext) simp

lemma inv_nor_step:
  fixes p S :: nat
  assumes "4096 dvd p" "p + 4096 \<le> S"
  shows "nor_write (p mod 2 ^ 24) (nor_read orig p 4096) (inv_nor orig cur S p) = inv_nor orig cur S (p + 4096)"
proof (rule ext)
  fix x
  let ?A = "p mod 16777216"
  note le = sector_image(2)[OF assms(1) le_refl, simplified]
  show "nor_write (p mod 2 ^ 24) (nor_read orig p 4096) (inv_nor orig cur S p) x = inv_nor orig cur S (p + 4096) x"
  proof (cases "?A \<le> x \<and> x < ?A + 4096")
    case True
    define b where "b = p + (x - ?A)"
    have b: "p \<le> b" "b < p + 4096"
      using True unfolding b_def by linarith+
    from sector_image(1)[OF assms(1) b] True have bx: "b mod 16777216 = x"
      by (simp add: b_def)
    have "x - ?A < 4096"
      using True by linarith
    then have rd: "nor_read orig p 4096 ! (x - ?A) = orig x"
      using bx by (simp add: nth_nor_read b_def)
    have "b < S" "b < p + 4096"
      using b assms(2) by simp_all
    with bx have ex: "\<exists>b<S. b mod 16777216 = x" "\<exists>b<p + 4096. b mod 16777216 = x"
      by blast+
    have "inv_nor orig cur S p x = orig x \<or> inv_nor orig cur S p x = 0xFF"
      using ex(1) by (simp add: inv_nor_def)
    moreover have "(0xFF :: u8) AND orig x = orig x"
    proof -
      have "(0xFF :: u8) = - 1"
        by simp
      then show ?thesis
        by (simp only: and.left_neutral)
    qed
    ultimately have "inv_nor orig cur S p x AND orig x = orig x"
      by auto
    then show ?thesis
      using True ex(2) by (simp add: nor_write_def rd inv_nor_def)
  next
    case False
    have "(\<exists>b<p + 4096. b mod 16777216 = x) \<longleftrightarrow> (\<exists>b<p. b mod 16777216 = x)"
    proof
      assume "\<exists>b<p + 4096. b mod 16777216 = x"
      then obtain b where b: "b < p + 4096" "b mod 16777216 = x"
        by blast
      show "\<exists>b<p. b mod 16777216 = x"
      proof (cases "b < p")
        case True
        with b show ?thesis by blast
      next
        case nlt: False
        then have "p \<le> b" by simp
        from sector_image(1)[OF assms(1) this b(1)] b False have False
          by simp
        then show ?thesis ..
      qed
    next
      assume "\<exists>b<p. b mod 16777216 = x"
      then obtain b where "b < p" "b mod 16777216 = x"
        by blast
      then show "\<exists>b<p + 4096. b mod 16777216 = x"
        by (intro exI[of _ b]) simp
    qed
    then have "inv_nor orig cur S (p + 4096) x = inv_nor orig cur S p x"
      by (simp add: inv_nor_def)
    moreover have "nor_write (p mod 2 ^ 24) (nor_read orig p 4096) (inv_nor orig cur S p) x = inv_nor orig cur S p x"
      using False by (auto simp: nor_write_def)
    ultimately show ?thesis
      by simp
  qed
qed

lemma payload_slice:
  assumes "length hdr = 28" "q + n \<le> S"
  shows "take n (drop (28 + q) (hdr @ nor_read m 0 S @ tr)) = nor_read m q n"
proof -
  have "S = q + (n + (S - q - n))"
    using assms(2) by simp
  then have "nor_read m 0 S = nor_read m 0 q @ nor_read m q n @ nor_read m (q + n) (S - q - n)"
    using nor_read_append[of m 0 q "n + (S - q - n)"] nor_read_append[of m q n "S - q - n"]
    by simp
  then show ?thesis
    using assms(1) by simp
qed

lemma flash_only_unprotected: "flash_only w (unprotected w)"
  unfolding unprotected_def flash_wren_def flash_cmd1_def sleep_ms_def
  by (intro flash_only_steps flash_only_refl)

lemma nor_unprotected [simp]: "nor (unprotected w) = nor w"
  by (simp add: unprotected_def flash_wren_def flash_cmd1_def sleep_ms_def)

lemma flash_only_erase_issue: "flash_only w (erase_issue a w)"
  unfolding erase_issue_def flash_wren_def flash_cmd1_def
  by (intro flash_only_steps flash_only_refl)

lemma nor_erase_issue [simp]:
  "nor (erase_issue a w) = nor_erase 4096 (unat a mod 2 ^ 24) (nor w)"
  by (simp add: erase_issue_def flash_wren_def flash_cmd1_def addr_hdr_def bus_addr_addr_hdr)

lemma never_busy_0: "never_busy w \<Longrightarrow> sr1_feed w 0 AND 1 = 0"
  by (simp add: never_busy_def)

lemma flash_dut_erase_4k_ready:
  assumes "never_busy w"
  shows "flash_dut_erase_4k a w = Some (True, polled 1 1 (erase_issue a (unprotected w)))"
proof -
  have u: "flash_global_unprotect w = Some (unprotected w)"
    by (rule flash_global_unprotect_ready[OF never_busy_0[OF assms]])
  have "never_busy (erase_issue a (unprotected w))"
    by (rule never_busy_flash_only[OF flash_only_trans[OF flash_only_unprotected flash_only_erase_issue] assms])
  then have "flash_wait_busy_timeout 2000 (erase_issue a (unprotected w)) =
      Some (True, polled 1 1 (erase_issue a (unprotected w)))"
    by (intro flash_wait_busy_timeout_ready never_busy_0)
  then show ?thesis
    by (simp add: flash_dut_erase_4k_def u)
qed

lemma sector_step_arith:
  fixes a fsize :: u32
  assumes "a < fsize" "4096 dvd unat a" "4096 dvd unat fsize"
  shows "unat (a + 4096) = unat a + 4096" and "unat a + 4096 \<le> unat fsize"
proof -
  have lt: "unat a < unat fsize"
    using assms(1) by (simp add: word_less_nat_alt)
  obtain i j where ij: "unat a = 4096 * i" "unat fsize = 4096 * j"
    using assms(2,3) by (auto simp: dvd_def)
  with lt have "i < j"
    by simp
  then have "i + 1 \<le> j"
    by simp
  then have "4096 * (i + 1) \<le> 4096 * j"
    by (rule mult_le_mono2)
  then show le: "unat a + 4096 \<le> unat fsize"
    by (simp add: ij)
  have "unat fsize < 2 ^ 32"
    using unsigned_less[of fsize] by simp
  with le have "unat a + 4096 < 2 ^ 32"
    by simp
  then show "unat (a + 4096) = unat a + 4096"
    by (simp add: unat_word_ariths)
qed

lemma restore_erase_loop_ready:
  assumes "never_busy w" "4096 dvd unat a" "4096 dvd unat fsize" "a \<le> fsize"
  shows "\<exists>w'. restore_erase_loop a fsize w = Some (True, w') \<and> flash_only w w' \<and>
           nor w' = erased (unat a) (unat fsize) (nor w)"
  using assms
proof (induction "unat fsize - unat a" arbitrary: a w rule: less_induct)
  case less
  show ?case
  proof (cases "a < fsize")
    case False
    with less.prems(4) have "a = fsize"
      by simp
    then show ?thesis
      by (subst restore_erase_loop.simps) simp
  next
    case True
    note ar = sector_step_arith[OF True less.prems(2,3)]
    let ?w1 = "polled 1 1 (erase_issue a (unprotected w))"
    have er: "flash_dut_erase_4k a w = Some (True, ?w1)"
      by (rule flash_dut_erase_4k_ready[OF less.prems(1)])
    have fo: "flash_only w ?w1"
      by (intro flash_only_steps flash_only_trans[OF flash_only_unprotected flash_only_erase_issue])
    have nb: "never_busy ?w1"
      by (rule never_busy_flash_only[OF fo less.prems(1)])
    have n1: "nor ?w1 = erased (unat a) (unat a + 4096) (nor w)"
      using nor_erase_sector[OF less.prems(2)] by simp
    have "unat fsize - unat (a + 4096) < unat fsize - unat a"
      using ar by simp
    moreover have "4096 dvd unat (a + 4096)" "a + 4096 \<le> fsize"
      using ar less.prems(2) by (simp_all add: word_le_nat_alt)
    ultimately obtain w' where w': "restore_erase_loop (a + 4096) fsize ?w1 = Some (True, w')"
      "flash_only ?w1 w'" "nor w' = erased (unat (a + 4096)) (unat fsize) (nor ?w1)"
      using less.hyps[of "a + 4096" ?w1] nb less.prems(3) by blast
    have "nor w' = erased (unat (a + 4096)) (unat fsize) (nor ?w1)"
      by (rule w'(3))
    also have "\<dots> = erased (unat a + 4096) (unat fsize) (erased (unat a) (unat a + 4096) (nor w))"
      by (simp only: n1 ar(1))
    also have "\<dots> = erased (unat a) (unat fsize) (nor w)"
      using ar(2) by (intro erased_erased) simp_all
    finally have "nor w' = erased (unat a) (unat fsize) (nor w)" .
    moreover have "restore_erase_loop a fsize w = Some (True, w')"
      using True er w'(1) by (subst restore_erase_loop.simps) simp
    ultimately show ?thesis
      using flash_only_trans[OF fo w'(2)] by blast
  qed
qed

lemma flash_dut_read_eq:
  "0 < n \<Longrightarrow> flash_dut_read addr n w =
     (Some (nor_read (nor w) (unat addr) n), w\<lparr>bus := bus w @ [Frame (addr_hdr CMD_READ addr) n]\<rparr>)"
  using nor_read_mod[of "nor w" "unat addr" n]
  by (simp add: flash_dut_read_def spi_read_frame_def addr_hdr_def bus_addr_addr_hdr)

lemma flash_only_bus: "flash_only w (w\<lparr>bus := bus w @ fs\<rparr>)"
  by (rule flash_onlyI[where m = "nor w" and k = 0 and j = 0 and fs = fs]) simp

lemma chunk_arith:
  fixes remain chunk :: u32
  assumes "remain \<noteq> 0" "chunk \<noteq> 0"
  defines "n \<equiv> (if chunk < remain then chunk else remain)"
  shows "0 < unat n" and "unat n \<le> unat remain" and "unat (remain - n) = unat remain - unat n"
proof -
  have n: "n \<noteq> 0" "n \<le> remain"
    using assms(1,2) by (auto simp: n_def)
  then show "0 < unat n" "unat n \<le> unat remain"
    by (simp_all add: unat_gt_0 word_le_nat_alt)
  show "unat (remain - n) = unat remain - unat n"
    using n(2) by (simp add: unat_sub)
qed

lemma nor_read_word_add:
  "nor_read m (unat (addr + n)) k = nor_read m (unat addr + unat n) k" for addr n :: u32
proof -
  have "unat (addr + n) mod 2 ^ 24 = (unat addr + unat n) mod 2 ^ 32 mod 2 ^ 24"
    by (simp add: unat_word_ariths)
  also have "\<dots> = (unat addr + unat n) mod 2 ^ 24"
    by (rule mod_mod_cancel) simp
  finally show ?thesis
    by (metis nor_read_mod)
qed

lemma crc32_flash_loop_ready:
  assumes "chunk \<noteq> 0"
  shows "\<exists>w'. crc32_flash_loop chunk crc addr remain w =
             Some (Some (crc32_update crc (nor_read (nor w) (unat addr) (unat remain))), w') \<and>
           flash_only w w' \<and> nor w' = nor w"
proof (induction "unat remain" arbitrary: remain addr crc w rule: less_induct)
  case less
  show ?case
  proof (cases "remain = 0")
    case True
    then show ?thesis
      by (subst crc32_flash_loop.simps) (simp add: nor_read_def crc32_update_Nil)
  next
    case False
    define n where "n = (if chunk < remain then chunk else remain)"
    note ar = chunk_arith[OF False assms, folded n_def]
    let ?w1 = "w\<lparr>bus := bus w @ [Frame (addr_hdr CMD_READ addr) (unat n)]\<rparr>"
    let ?buf = "nor_read (nor w) (unat addr) (unat n)"
    have rd: "flash_dut_read addr (unat n) w = (Some ?buf, ?w1)"
      by (rule flash_dut_read_eq[OF ar(1)])
    have "unat (remain - n) < unat remain"
      using ar by simp
    from less.hyps[OF this, of "crc32_update crc ?buf" "addr + n" ?w1]
    obtain w' where w': "crc32_flash_loop chunk (crc32_update crc ?buf) (addr + n) (remain - n) ?w1 =
        Some (Some (crc32_update (crc32_update crc ?buf)
                      (nor_read (nor ?w1) (unat (addr + n)) (unat (remain - n)))), w')"
      "flash_only ?w1 w'" "nor w' = nor ?w1"
      by blast
    have "unat remain = unat n + (unat remain - unat n)"
      using ar(2) by simp
    then have "nor_read (nor w) (unat addr) (unat remain) =
        ?buf @ nor_read (nor w) (unat addr + unat n) (unat remain - unat n)"
      by (metis nor_read_append)
    then have crc_eq: "crc32_update (crc32_update crc ?buf)
          (nor_read (nor ?w1) (unat (addr + n)) (unat (remain - n))) =
        crc32_update crc (nor_read (nor w) (unat addr) (unat remain))"
      by (simp add: crc32_update_append nor_read_word_add ar(3))
    have "crc32_flash_loop chunk crc addr remain w =
        crc32_flash_loop chunk (crc32_update crc ?buf) (addr + n) (remain - n) ?w1"
      using False by (subst crc32_flash_loop.simps) (simp add: n_def[symmetric] rd Let_def)
    then have "crc32_flash_loop chunk crc addr remain w =
        Some (Some (crc32_update crc (nor_read (nor w) (unat addr) (unat remain))), w')"
      by (simp only: w'(1) crc_eq)
    moreover have "flash_only w w'"
      by (rule flash_only_trans[OF flash_only_bus w'(2)])
    moreover have "nor w' = nor w"
      by (simp add: w'(3))
    ultimately show ?thesis by blast
  qed
qed

lemma f_write_append:
  assumes "sd_files w (fpath fp) = Some content" "fptr fp = length content"
  shows "f_write fp buf w =
           ((FR_OK, length buf), fp\<lparr>fptr := length content + length buf\<rparr>,
            w\<lparr>sd_files := (sd_files w)(fpath fp \<mapsto> content @ buf)\<rparr>)"
  using assms by (simp add: f_write_def)

lemma backup_loop_eq:
  assumes "sd_files w (fpath fp) = Some content" "fptr fp = length content"
  shows "\<exists>fs. backup_loop fp crc addr tot w =
           (Inr (crc32_update crc (nor_read (nor w) (unat addr) (unat tot)),
                 fp\<lparr>fptr := length content + unat tot\<rparr>),
            w\<lparr>bus := bus w @ fs,
              sd_files := (sd_files w)(fpath fp \<mapsto> content @ nor_read (nor w) (unat addr) (unat tot))\<rparr>)"
  using assms
proof (induction "unat tot" arbitrary: tot fp crc addr w content rule: less_induct)
  case less
  show ?case
  proof (cases "tot = 0")
    case True
    have e0: "backup_loop fp crc addr tot w = (Inr (crc, fp), w)"
      using True by (subst backup_loop.simps) simp
    have e1: "nor_read (nor w) (unat addr) (unat tot) = []"
      using True by (simp add: nor_read_def)
    have e2: "fp\<lparr>fptr := length content + unat tot\<rparr> = fp"
      using True less.prems(2) by simp
    have e3: "w\<lparr>bus := bus w @ [], sd_files := (sd_files w)(fpath fp \<mapsto> content @ [])\<rparr> = w"
      using less.prems(1) by (simp add: map_upd_triv)
    show ?thesis
      by (rule exI[of _ "[]"]) (simp only: e0 e1 e2 e3 crc32_update_Nil)
  next
    case False
    define n where "n = (if 4096 < tot then 4096 else tot)"
    have "(4096 :: u32) \<noteq> 0"
      by simp
    note ar = chunk_arith[OF False this, folded n_def]
    let ?buf = "nor_read (nor w) (unat addr) (unat n)"
    let ?w1 = "w\<lparr>bus := bus w @ [Frame (addr_hdr CMD_READ addr) (unat n)]\<rparr>"
    let ?fp1 = "fp\<lparr>fptr := length content + unat n\<rparr>"
    let ?w2 = "?w1\<lparr>sd_files := (sd_files ?w1)(fpath fp \<mapsto> content @ ?buf)\<rparr>"
    have rd: "flash_dut_read addr (unat n) w = (Some ?buf, ?w1)"
      by (rule flash_dut_read_eq[OF ar(1)])
    have wr: "f_write fp ?buf ?w1 = ((FR_OK, unat n), ?fp1, ?w2)"
      using f_write_append[of ?w1 fp content ?buf] less.prems by simp
    have "unat (tot - n) < unat tot"
      using ar by simp
    from less.hyps[OF this, of ?w2 ?fp1 "content @ ?buf" "crc32_update crc ?buf" "addr + n"]
    obtain fs where fs: "backup_loop ?fp1 (crc32_update crc ?buf) (addr + n) (tot - n) ?w2 =
        (Inr (crc32_update (crc32_update crc ?buf) (nor_read (nor ?w2) (unat (addr + n)) (unat (tot - n))),
              ?fp1\<lparr>fptr := length (content @ ?buf) + unat (tot - n)\<rparr>),
         ?w2\<lparr>bus := bus ?w2 @ fs,
              sd_files := (sd_files ?w2)(fpath ?fp1 \<mapsto>
                 (content @ ?buf) @ nor_read (nor ?w2) (unat (addr + n)) (unat (tot - n)))\<rparr>)"
      by auto
    have "unat tot = unat n + (unat tot - unat n)"
      using ar(2) by simp
    then have cat: "nor_read (nor w) (unat addr) (unat tot) =
        ?buf @ nor_read (nor w) (unat addr + unat n) (unat tot - unat n)"
      by (metis nor_read_append)
    have step: "backup_loop fp crc addr tot w =
        backup_loop ?fp1 (crc32_update crc ?buf) (addr + n) (tot - n) ?w2"
      using False by (subst backup_loop.simps) (simp add: n_def[symmetric] rd wr Let_def)
    show ?thesis
      unfolding step fs
      using ar(2)
      by (intro exI[of _ "Frame (addr_hdr CMD_READ addr) (unat n) # fs"])
         (simp add: cat crc32_update_append nor_read_word_add ar(3))
  qed
qed

lemma restore_program_loop_ready:
  assumes "never_busy w"
    and "sd_files w (fpath fp) = Some img"
    and "\<And>q n. q + n \<le> S \<Longrightarrow> take n (drop (28 + q) img) = nor_read orig q n"
    and "28 + S \<le> length img"
    and "fptr fp = 28 + unat addr"
    and "4096 dvd unat addr" "4096 dvd unat remain"
    and "unat addr + unat remain = S" "S < 2 ^ 32"
    and "nor w = inv_nor orig cur S (unat addr)"
  shows "\<exists>w'. restore_program_loop 4096 fp addr remain w = Some (0, w') \<and> flash_only w w' \<and>
           nor w' = inv_nor orig cur S S"
  using assms(1,2,5,6,7,8,10)
proof (induction "unat remain" arbitrary: remain addr fp w rule: less_induct)
  case less
  show ?case
  proof (cases "remain = 0")
    case True
    with less.prems(6,7) show ?thesis
      by (subst restore_program_loop.simps) simp
  next
    case False
    have r4096: "4096 \<le> unat remain"
    proof -
      obtain k where k: "unat remain = 4096 * k"
        using less.prems(5) by (auto simp: dvd_def)
      have "0 < unat remain"
        using False by (simp add: unat_gt_0)
      then show ?thesis
        unfolding k by (cases k) simp_all
    qed
    then have ge: "4096 \<le> remain"
      by (simp add: word_le_nat_alt)
    have n: "(if 4096 < remain then 4096 else remain) = 4096"
      using ge by auto
    let ?p = "unat addr"
    let ?buf = "nor_read orig ?p 4096"
    let ?fp1 = "fp\<lparr>fptr := 28 + ?p + 4096\<rparr>"
    have fit: "?p + 4096 \<le> S"
      using less.prems(6) r4096 by simp
    have buf: "take 4096 (drop (28 + ?p) img) = ?buf"
      by (rule assms(3)[OF fit])
    have rd: "f_read w fp 4096 = ((FR_OK, ?buf), ?fp1)"
      using f_read_full[OF less.prems(2), of 4096] fit assms(4) less.prems(3) buf by simp
    have len: "length ?buf = unat (4096 :: u32)"
      by simp
    obtain w1 where run: "restore_page_loop addr ?buf 4096 0 w = Some (True, w1)"
      using restore_page_loop_ready[OF less.prems(1) len] by blast
    from restore_page_loop_run_aux[OF run] len
    have fo: "flash_only w w1"
      and n1: "nor w1 = apply_spans (page_exact_split ?p ?buf) (nor w)"
      by simp_all
    have "?p mod 16777216 + 4096 \<le> 16777216"
      by (rule sector_image(2)[OF less.prems(4) le_refl]) simp
    then have "apply_spans (page_exact_split ?p ?buf) (nor w) = nor_write (?p mod 2 ^ 24) ?buf (nor w)"
      by (intro apply_spans_page_exact_split) simp
    also have "\<dots> = inv_nor orig cur S (?p + 4096)"
      unfolding less.prems(7) by (rule inv_nor_step[OF less.prems(4) fit])
    finally have n1': "nor w1 = inv_nor orig cur S (?p + 4096)"
      by (simp only: n1)
    have add: "unat (addr + 4096) = ?p + 4096"
      using fit assms(9) by (simp add: unat_word_ariths)
    have sub: "unat (remain - 4096) = unat remain - 4096"
      using ge by (simp add: unat_sub)
    have "unat (remain - 4096) < unat remain"
      using r4096 sub by simp
    moreover have "never_busy w1" "sd_files w1 (fpath ?fp1) = Some img"
      using never_busy_flash_only[OF fo less.prems(1)] flash_only_fields(6)[OF fo] less.prems(2)
      by simp_all
    moreover have "fptr ?fp1 = 28 + unat (addr + 4096)" "4096 dvd unat (addr + 4096)"
      "4096 dvd unat (remain - 4096)" "unat (addr + 4096) + unat (remain - 4096) = S"
      using less.prems(4,5,6) r4096 by (simp_all add: add sub)
    moreover have "nor w1 = inv_nor orig cur S (unat (addr + 4096))"
      by (simp only: n1' add)
    ultimately obtain w' where w': "restore_program_loop 4096 ?fp1 (addr + 4096) (remain - 4096) w1 = Some (0, w')"
      "flash_only w1 w'" "nor w' = inv_nor orig cur S S"
      using less.hyps[of "remain - 4096" w1 ?fp1 "addr + 4096"] by blast
    have "restore_program_loop 4096 fp addr remain w = Some (0, w')"
      using False w'(1)
      by (subst restore_program_loop.simps) (simp add: n rd run)
    then show ?thesis
      using flash_only_trans[OF fo w'(2)] w'(3) by blast
  qed
qed

lemma fs_mount_once_ok:
  "mounted w \<or> card_ok w \<Longrightarrow> fs_mount_once w = (True, w\<lparr>mounted := True\<rparr>)"
  by (auto simp: fs_mount_once_def)

lemma restore_check_crc_ok:
  assumes img_on_card: "sd_files w path = Some (image_file h payload (crc32_all h))"
    and hl: "length (hdr_bytes h) = 28"
    and pl: "length payload = unat (image_size h)"
    and crc: "crc32_all h = crc32_update 0 payload"
    and chunk: "chunk_size h \<noteq> 0"
  shows "restore_check_crc w \<lparr>fpath = path, fptr = 28\<rparr> h =
           Some (Inr \<lparr>fpath = path, fptr = 28 + unat (image_size h) + 4\<rparr>)"
proof -
  let ?img = "image_file h payload (crc32_all h)"
  let ?fp = "\<lparr>fpath = path, fptr = 28\<rparr>"
  have len: "length ?img = 28 + unat (image_size h) + 4"
    by (simp add: image_file_def hl pl)
  have seek: "f_lseek w ?fp 28 = ?fp"
    by (simp add: f_lseek_def img_on_card len)
  have pay: "take (unat (image_size h)) (drop 28 ?img) = payload"
    by (simp add: image_file_def hl pl)
  have loop: "restore_crc_loop w (chunk_size h) ?fp 0 (image_size h) =
      Some (Some (crc32_all h, \<lparr>fpath = path, fptr = 28 + unat (image_size h)\<rparr>))"
    using restore_crc_loop_complete[of w ?fp ?img "chunk_size h" "image_size h" 0] img_on_card chunk
      len pay crc
    by simp
  have tr: "f_read w \<lparr>fpath = path, fptr = 28 + unat (image_size h)\<rparr> 4 =
      ((FR_OK, le32_bytes (crc32_all h)),
       \<lparr>fpath = path, fptr = 28 + unat (image_size h) + 4\<rparr>)"
    using f_read_full[of w "\<lparr>fpath = path, fptr = 28 + unat (image_size h)\<rparr>" ?img 4] img_on_card
    by (simp add: len) (simp add: image_file_def hl pl)
  have "le32_word (le32_bytes (crc32_all h) @ []) = crc32_all h"
    by (rule le32_word_bytes)
  then show ?thesis
    by (simp add: restore_check_crc_def seek loop tr)
qed

lemma nor_read_restored:
  "nor_read (\<lambda>x. if x < S \<and> x < 2 ^ 24 then orig x else cur x) 0 S = nor_read orig 0 S"
proof -
  have "i mod 16777216 < S" if "i < S" for i :: nat
    using that mod_less_eq_dividend[of i 16777216] by linarith
  then show ?thesis
    by (simp add: nor_read_def)
qed

lemma restore_image_current:
  assumes nb: "never_busy w" and al: "malloc_feed w 0"
    and img_on_card: "sd_files w path = Some (image_file h payload (crc32_all h))"
    and hl: "length (hdr_bytes h) = 28"
    and sizes: "chunk_size h = 4096" "image_size h = flash_size h" "4096 dvd unat (image_size h)"
    and payload: "payload = nor_read orig 0 (unat (image_size h))"
    and crc: "crc32_all h = crc32_update 0 payload"
  shows "\<exists>w'. restore_image h \<lparr>fpath = path, fptr = 28\<rparr> w = Some (0, w') \<and>
           nor w' = (\<lambda>x. if x < unat (image_size h) \<and> x < 2 ^ 24 then orig x else nor w x)"
proof -
  let ?S = "unat (image_size h)"
  let ?img = "image_file h payload (crc32_all h)"
  let ?fin = "\<lambda>x. if x < ?S \<and> x < 2 ^ 24 then orig x else nor w x"
  have pl: "length payload = ?S"
    by (simp add: payload)
  have len: "length ?img = 28 + ?S + 4"
    by (simp add: image_file_def hl pl)
  have chk: "restore_check_crc w \<lparr>fpath = path, fptr = 28\<rparr> h =
      Some (Inr \<lparr>fpath = path, fptr = 28 + ?S + 4\<rparr>)"
    by (rule restore_check_crc_ok[OF img_on_card hl pl crc]) (simp add: sizes)
  obtain w4 where er: "restore_erase_loop 0 (flash_size h) w = Some (True, w4)"
    and fo4: "flash_only w w4" and n4: "nor w4 = erased 0 ?S (nor w)"
    using restore_erase_loop_ready[OF nb, of 0 "flash_size h"] sizes by auto
  have nb4: "never_busy w4"
    by (rule never_busy_flash_only[OF fo4 nb])
  have f4: "sd_files w4 path = Some ?img"
    using flash_only_fields(6)[OF fo4] img_on_card by simp
  have seek: "f_lseek w4 \<lparr>fpath = path, fptr = 28 + ?S + 4\<rparr> 28 = \<lparr>fpath = path, fptr = 28\<rparr>"
    by (simp add: f_lseek_def f4 len)
  have slice: "take n (drop (28 + q) ?img) = nor_read orig q n" if "q + n \<le> ?S" for q n
    unfolding image_file_def payload by (rule payload_slice[OF hl that])
  have "?S < 2 ^ 32"
    using unsigned_less[of "image_size h"] by simp
  then obtain w5 where pr: "restore_program_loop 4096 \<lparr>fpath = path, fptr = 28\<rparr> 0 (image_size h) w4 = Some (0, w5)"
    and fo5: "flash_only w4 w5" and n5: "nor w5 = inv_nor orig (nor w) ?S ?S"
    using restore_program_loop_ready[of w4 "\<lparr>fpath = path, fptr = 28\<rparr>" ?img ?S orig 0 "image_size h" "nor w"]
      nb4 f4 slice len sizes(3) n4
    by (auto simp: erased_inv_nor[of _ _ orig])
  have n5': "nor w5 = ?fin"
    by (simp only: n5 inv_nor_done)
  have fo: "flash_only w w5"
    by (rule flash_only_trans[OF fo4 fo5])
  have m5: "malloc_feed w5 0"
    using flash_only_fields(3)[OF fo] al by simp
  define w6 where "w6 = w5\<lparr>malloc_feed := (\<lambda>k. malloc_feed w5 (Suc k))\<rparr>"
  have m: "malloc 4096 w5 = (True, w6)"
    using m5 by (simp add: malloc_def w6_def)
  have n6: "nor w6 = ?fin"
    by (simp add: w6_def n5')
  obtain w7 where lp: "crc32_flash_loop 4096 0 0 (image_size h) w6 =
      Some (Some (crc32_update 0 (nor_read (nor w6) (unat (0 :: u32)) ?S)), w7)"
    and n7: "nor w7 = nor w6"
    using crc32_flash_loop_ready[of 4096 0 0 "image_size h" w6] by auto
  have "nor_read (nor w6) (unat (0 :: u32)) ?S = payload"
    unfolding n6 payload by (simp only: unat_0 nor_read_restored)
  then have "crc32_update 0 (nor_read (nor w6) (unat (0 :: u32)) ?S) = crc32_all h"
    by (simp only: crc)
  then have "restore_verify h w5 = Some (0, w7)"
    using lp by (simp add: restore_verify_def crc32_over_flash_def sizes(1) m)
  moreover have chk': "restore_check_crc w \<lparr>fpath = path, fptr = 28\<rparr> h =
      Some (Inr \<lparr>fpath = path, fptr = 32 + ?S\<rparr>)"
    using chk by simp
  moreover have seek': "f_lseek w4 \<lparr>fpath = path, fptr = 32 + ?S\<rparr> 28 = \<lparr>fpath = path, fptr = 28\<rparr>"
    using seek by simp
  ultimately have "restore_image h \<lparr>fpath = path, fptr = 28\<rparr> w = Some (0, w7)"
    by (simp add: restore_image_def er sizes(1) pr)
  then show ?thesis
    using n7 n6 by auto
qed

lemma flash_calculate_capacity_sectors:
  "4096 dvd unat (flash_calculate_capacity c)"
proof (cases "0x10 \<le> c \<and> c < 0x20")
  case True
  then have n: "16 \<le> unat c"
    by (simp add: word_le_nat_alt)
  have "unat c = (unat c - 3) + 3"
    using n by simp
  then have "(2 :: nat) ^ unat c = 2 ^ (unat c - 3) * 2 ^ 3"
    by (metis power_add)
  then have "(2 :: nat) ^ unat c div 8 = 2 ^ (unat c - 3)"
    by simp
  moreover have "(2 :: nat) ^ 12 dvd 2 ^ (unat c - 3)"
    using n by (intro le_imp_power_dvd) simp
  ultimately show ?thesis
    using flash_calculate_capacity_below_0x20[of c] True by simp
next
  case False
  then have "c < 0x10 \<or> c > 0x20 \<or> c = 0x20"
    by auto
  then have "flash_calculate_capacity c = 0"
    by (auto simp: flash_calculate_capacity_def)
  then show ?thesis
    by simp
qed

lemma backup_flash_sz_sectors:
  "backup_flash_sz jid \<noteq> 0" "4096 dvd unat (backup_flash_sz jid)"
proof -
  show "backup_flash_sz jid \<noteq> 0"
    by (simp add: backup_flash_sz_def flash_dut_probe_capacity_sfdp_def Let_def)
  show "4096 dvd unat (backup_flash_sz jid)"
    using flash_calculate_capacity_sectors[of "capacity_id jid"]
    by (simp add: backup_flash_sz_def flash_dut_probe_capacity_sfdp_def Let_def)
qed

lemma ensure_folder_fields [simp]:
  "nor (ensure_folder w) = nor w" "bus (ensure_folder w) = bus w"
  "chip_jedec (ensure_folder w) = chip_jedec w" "sr1_feed (ensure_folder w) = sr1_feed w"
  "sr2_val (ensure_folder w) = sr2_val w" "clock_feed (ensure_folder w) = clock_feed w"
  "malloc_feed (ensure_folder w) = malloc_feed w" "card_ok (ensure_folder w) = card_ok w"
  "mounted (ensure_folder w) = mounted w" "sd_files (ensure_folder w) = sd_files w"
  by (simp_all add: ensure_folder_def split: option.splits)

lemma image_name_nonempty: "image_name stamp jid \<noteq> []"
  by (simp add: image_name_def)

lemma flash_dut_read_jedec_eq:
  "flash_dut_read_jedec w = ((True, chip_jedec w), w\<lparr>bus := bus w @ [Frame [CMD_JEDEC_ID] 3]\<rparr>)"
  by (simp add: flash_dut_read_jedec_def spi_read_frame_def)

lemma backup_flash_to_sd_ready:
  assumes nb: "never_busy w" and al: "malloc_feed w 0" and card: "mounted w \<or> card_ok w"
  shows "\<exists>name w'. backup_flash_to_sd w = Some (0, w') \<and> name \<noteq> [] \<and>
           sd_files w' = (sd_files w)(name \<mapsto>
             image_file (backup_header w)
               (nor_read (nor w) 0 (unat (backup_flash_sz (chip_jedec w))))
               (crc32_all (backup_header w))) \<and>
           nor w' = nor w \<and> never_busy w' \<and> mounted w' \<and>
           malloc_feed w' = (\<lambda>k. malloc_feed w (Suc k))"
proof -
  define jid where "jid = chip_jedec w"
  define S where "S = backup_flash_sz jid"
  define P where "P = nor_read (nor w) 0 (unat S)"
  define h0 where "h0 = \<lparr>magic = FIMG_MAGIC,
      jedec = [manuf_id jid, mem_type jid, capacity_id jid], reserved = 0,
      flash_size = S, chunk_size = CHUNK_BYTES, image_size = S, crc32_all = 0\<rparr>"
  define h where "h = h0\<lparr>crc32_all := crc32_update 0 P\<rparr>"
  have hh: "h = backup_header w"
    by (simp add: h_def h0_def backup_header_def P_def S_def jid_def)
  have l0: "length (hdr_bytes h0) = 28" and l1: "length (hdr_bytes h) = 28"
    by (simp_all add: length_hdr_bytes h_def h0_def)
  define w1 where "w1 = w\<lparr>mounted := True\<rparr>"
  have mount: "fs_mount_once w = (True, w1)"
    unfolding w1_def by (rule fs_mount_once_ok[OF card])
  define w2 where "w2 = unprotected (flash_soft_reset w1)"
  have "sr1_feed w1 0 AND 1 = 0"
    using never_busy_0[OF nb] by (simp add: w1_def)
  then have init: "flash_dut_init w1 = Some (True, w2)"
    unfolding w2_def by (rule flash_dut_init_ready)
  note fo2 = flash_dut_init_only(2)[OF init] and n2 = flash_dut_init_only(3)[OF init]
  note f2 = flash_only_fields[OF fo2]
  have nb2: "never_busy w2"
    by (rule never_busy_flash_only[OF fo2]) (simp add: never_busy_def w1_def nb[unfolded never_busy_def])
  define w3 where "w3 = w2\<lparr>bus := bus w2 @ [Frame [CMD_JEDEC_ID] 3]\<rparr>"
  have jed: "flash_dut_read_jedec w2 = ((True, jid), w3)"
    by (simp add: flash_dut_read_jedec_eq w3_def jid_def f2(1) w1_def)
  define stamp where "stamp = CHR ''t'' # dec_digits 10 (unat (clock_feed w3 0))"
  define w4 where "w4 = (ensure_folder w3)\<lparr>clock_feed := (\<lambda>k. clock_feed w3 (Suc k))\<rparr>"
  have tm: "fmt_time (ensure_folder w3) = (stamp, w4)"
    by (simp add: fmt_time_def to_ms_since_boot_def stamp_def w4_def)
  define name where "name = image_name stamp jid"
  define fp where "fp = \<lparr>fpath = name, fptr = 0\<rparr>"
  define w5 where "w5 = w4\<lparr>sd_files := (sd_files w4)(name \<mapsto> [])\<rparr>"
  have cr: "f_open_create name w4 = ((FR_OK, fp), w5)"
    by (simp add: f_open_create_def fp_def w5_def)
  define w6 where "w6 = w5\<lparr>sd_files := (sd_files w5)(name \<mapsto> hdr_bytes h0)\<rparr>"
  have wr1: "f_write fp (hdr_bytes h0) w5 = ((FR_OK, 28), fp\<lparr>fptr := 28\<rparr>, w6)"
    using f_write_append[of w5 fp "[]" "hdr_bytes h0"]
    by (simp add: fp_def w5_def w6_def l0)
  define w7 where "w7 = w6\<lparr>malloc_feed := (\<lambda>k. malloc_feed w6 (Suc k))\<rparr>"
  have m6: "malloc_feed w6 = malloc_feed w"
    by (simp add: w6_def w5_def w4_def w3_def f2(3) w1_def)
  have ml: "malloc 4096 w6 = (True, w7)"
    using al by (simp add: malloc_def w7_def m6)
  have n7: "nor w7 = nor w"
    by (simp add: w7_def w6_def w5_def w4_def w3_def n2 w1_def)
  have s7: "sd_files w7 = (sd_files w)(name \<mapsto> hdr_bytes h0)"
    by (simp add: w7_def w6_def w5_def w4_def w3_def f2(6) w1_def)
  obtain fs where lp: "backup_loop (fp\<lparr>fptr := 28\<rparr>) 0 0 S w7 =
      (Inr (crc32_update 0 (nor_read (nor w7) (unat (0 :: u32)) (unat S)),
            fp\<lparr>fptr := 28 + unat S\<rparr>),
       w7\<lparr>bus := bus w7 @ fs,
          sd_files := (sd_files w7)(name \<mapsto> hdr_bytes h0 @ nor_read (nor w7) (unat (0 :: u32)) (unat S))\<rparr>)"
    using backup_loop_eq[of w7 "fp\<lparr>fptr := 28\<rparr>" "hdr_bytes h0" 0 0 S]
    by (auto simp: s7 fp_def l0)
  define w8 where "w8 = w7\<lparr>bus := bus w7 @ fs, sd_files := (sd_files w)(name \<mapsto> hdr_bytes h0 @ P)\<rparr>"
  have lp': "backup_loop (fp\<lparr>fptr := 28\<rparr>) 0 0 S w7 =
      (Inr (crc32_update 0 P, fp\<lparr>fptr := 28 + unat S\<rparr>), w8)"
    unfolding lp by (simp add: n7 P_def w8_def s7)
  define w9 where "w9 = w8\<lparr>sd_files := (sd_files w)(name \<mapsto> hdr_bytes h0 @ P @ le32_bytes (crc32_update 0 P))\<rparr>"
  have lP: "length P = unat S"
    by (simp add: P_def)
  have wr2: "f_write (fp\<lparr>fptr := 28 + unat S\<rparr>) (le32_bytes (crc32_update 0 P)) w8 =
      ((FR_OK, 4), fp\<lparr>fptr := 32 + unat S\<rparr>, w9)"
    using f_write_append[of w8 "fp\<lparr>fptr := 28 + unat S\<rparr>" "hdr_bytes h0 @ P" "le32_bytes (crc32_update 0 P)"]
    by (simp add: fp_def w8_def w9_def l0 lP length_le32_bytes)
  have sk: "f_lseek w9 (fp\<lparr>fptr := 32 + unat S\<rparr>) 0 = fp"
    by (simp add: f_lseek_def fp_def w9_def)
  define w10 where "w10 = w9\<lparr>sd_files := (sd_files w)(name \<mapsto> image_file h P (crc32_update 0 P))\<rparr>"
  have wr3: "f_write fp (hdr_bytes h) w9 = ((FR_OK, 28), fp\<lparr>fptr := 28\<rparr>, w10)"
    by (simp add: f_write_def fp_def w9_def w10_def l0 l1 image_file_def)
  have "backup_flash_to_sd w = Some (0, w10)"
    by (simp add: backup_flash_to_sd_def mount init jed tm cr wr1 ml lp' wr2 sk wr3
          S_def[symmetric] name_def[symmetric] h0_def[symmetric] h_def[symmetric] Let_def)
  moreover have "name \<noteq> []"
    unfolding name_def by (rule image_name_nonempty)
  moreover have "sd_files w10 = (sd_files w)(name \<mapsto> image_file h P (crc32_all h))"
    by (simp add: w10_def h_def)
  moreover have "nor w10 = nor w"
    by (simp add: w10_def w9_def w8_def n7)
  moreover have "sr1_feed w10 = sr1_feed w2"
    by (simp add: w10_def w9_def w8_def w7_def w6_def w5_def w4_def w3_def)
  then have "never_busy w10"
    using nb2 by (simp add: never_busy_def)
  moreover have "mounted w10"
    by (simp add: w10_def w9_def w8_def w7_def w6_def w5_def w4_def w3_def f2(5) w1_def)
  moreover have "malloc_feed w10 = (\<lambda>k. malloc_feed w (Suc k))"
    by (simp add: w10_def w9_def w8_def w7_def m6)
  ultimately show ?thesis
    unfolding hh[symmetric] P_def S_def jid_def by blast
qed

lemma restore_flash_from_sd_ready:
  assumes nb: "never_busy v" and al: "malloc_feed v 0" "malloc_feed v 1" and mt: "mounted v"
    and name: "name \<noteq> []"
    and img: "sd_files v name = Some (image_file h payload (crc32_all h))"
    and hm: "magic h = FIMG_MAGIC" "length (jedec h) = 3"
    and sizes: "chunk_size h = 4096" "image_size h = flash_size h"
      "4096 dvd unat (image_size h)" "image_size h \<noteq> 0"
    and payload: "payload = nor_read orig 0 (unat (image_size h))"
    and crc: "crc32_all h = crc32_update 0 payload"
  shows "\<exists>v'. restore_flash_from_sd (Some name) v = Some (0, v') \<and>
           nor v' = (\<lambda>x. if x < unat (image_size h) \<and> x < 2 ^ 24 then orig x else nor v x)"
proof -
  let ?img = "image_file h payload (crc32_all h)"
  have hl: "length (hdr_bytes h) = 28"
    by (rule length_hdr_bytes) (simp_all add: hm)
  have mount: "fs_mount_once v = (True, v)"
    using mt by (simp add: fs_mount_once_def)
  define v2 where "v2 = unprotected (flash_soft_reset v)"
  have init: "flash_dut_init v = Some (True, v2)"
    unfolding v2_def by (rule flash_dut_init_ready[OF never_busy_0[OF nb]])
  note fo2 = flash_dut_init_only(2)[OF init]
  have target: "restore_target (Some name) v = Some name"
    by (rule restore_target_Some[OF name])
  note pre = restore_prefix[OF mount init target img]
  have i2: "sd_files v2 name = Some ?img"
    using pre(2) img by simp
  have tk: "take 28 ?img = hdr_bytes h"
    by (simp add: image_file_def hl)
  have "hdr_of_bytes (hdr_bytes h @ []) = h"
    by (rule hdr_of_bytes_hdr_bytes) (simp_all add: hm)
  then have hb: "hdr_of_bytes (take 28 ?img) = h"
    by (simp add: tk)
  have "28 \<le> length ?img"
    by (simp add: image_file_def hl)
  then have hd: "restore_read_header v2 \<lparr>fpath = name, fptr = 0\<rparr> = Inr (h, \<lparr>fpath = name, fptr = 28\<rparr>)"
    unfolding restore_read_header_eq[OF i2] hb by (simp add: hm sizes(1,4))
  define v3 where "v3 = v2\<lparr>malloc_feed := (\<lambda>k. malloc_feed v2 (Suc k))\<rparr>"
  have ml: "malloc 4096 v2 = (True, v3)"
    using al(1) pre(3) by (simp add: malloc_def v3_def)
  have eq: "restore_flash_from_sd (Some name) v = restore_image h \<lparr>fpath = name, fptr = 28\<rparr> v3"
    unfolding pre(1) hd by (simp add: sizes(1) ml)
  have "never_busy v2"
    by (rule never_busy_flash_only[OF fo2 nb])
  then have nb3: "never_busy v3"
    by (simp add: never_busy_def v3_def)
  have al3: "malloc_feed v3 0"
    using al(2) pre(3) by (simp add: v3_def)
  have i3: "sd_files v3 name = Some ?img"
    using i2 by (simp add: v3_def)
  have n3: "nor v3 = nor v"
    using pre(4) by (simp add: v3_def)
  from restore_image_current[OF nb3 al3 i3 hl sizes(1,2,3) payload crc]
  show ?thesis
    unfolding eq n3 .
qed



end
